theory Spec2Isabelle
  imports Main "HOL-Library.Char_ord" "HOL-Library.List_Lexorder" "HOL-Library.Multiset"
begin

section \<open>JavaScript strings and numbers\<close>

text \<open>
  The renderer of \<^verbatim>\<open>src/markdown-renderer.ts\<close> only builds strings. A JavaScript
  string is modelled as a \<^typ>\<open>string\<close>, one \<^typ>\<open>char\<close> per code unit; the
  order on strings is the lexicographic order of the code units, which is the order the
  default comparison of \<^verbatim>\<open>Array.prototype.sort\<close> uses on strings.
\<close>

definition digit_chars :: string where
  "digit_chars = ''0123456789''"

definition is_digit :: "char \<Rightarrow> bool" where
  "is_digit c = (c \<in> set digit_chars)"

text \<open>The decimal rendering of a non-negative integer, as a template literal prints it.
  The numbers printed are issue numbers and the length of a list, integers far below
  \<open>2 ^ 53\<close>, which JavaScript holds exactly and prints in plain decimal.\<close>

fun string_of_nat :: "nat \<Rightarrow> string" where
  "string_of_nat n =
     (if n < 10 then [digit_chars ! n]
      else string_of_nat (n div 10) @ [digit_chars ! (n mod 10)])"

declare string_of_nat.simps [simp del]

text \<open>\<^verbatim>\<open>Array.prototype.join\<close> on an array of strings.\<close>

fun join_str :: "string \<Rightarrow> string list \<Rightarrow> string" where
  "join_str sep [] = []"
| "join_str sep [x] = x"
| "join_str sep (x # y # ys) = x @ sep @ join_str sep (y # ys)"

section \<open>Regular expressions with capture groups\<close>

text \<open>
  The fragment of the regular expressions of ECMAScript that \<^verbatim>\<open>COMMIT_FIX_REGEX\<close>
  is written in: pattern characters, a character class, \<^verbatim>\<open>\d\<close>, sequence,
  alternative, the greedy quantifiers \<^verbatim>\<open>?\<close> (on any term) and \<^verbatim>\<open>+\<close> (on an atom),
  and numbered capture groups.
\<close>

datatype atom = Chr char | OneOf string | Digit

datatype regex =
    Eps
  | Atom atom
  | Seq regex regex
  | Alt regex regex
  | Opt regex
  | Plus atom
  | Group nat regex

text \<open>
  \<^verbatim>\<open>Canonicalize\<close> for a pattern without the \<^verbatim>\<open>u\<close> flag: under \<^verbatim>\<open>i\<close> a
  character is compared by its upper case. Only the letters a to z have an upper case
  among the code units modelled here, and no character outside ASCII is ever mapped to an
  ASCII one.
\<close>

definition upper_table :: "(char \<times> char) list" where
  "upper_table = zip ''abcdefghijklmnopqrstuvwxyz'' ''ABCDEFGHIJKLMNOPQRSTUVWXYZ''"

definition canonicalize :: "bool \<Rightarrow> char \<Rightarrow> char" where
  "canonicalize ic c =
     (if ic then (case map_of upper_table c of Some u \<Rightarrow> u | None \<Rightarrow> c) else c)"

fun atom_matches :: "bool \<Rightarrow> atom \<Rightarrow> char \<Rightarrow> bool" where
  "atom_matches ic (Chr p) c = (canonicalize ic p = canonicalize ic c)"
| "atom_matches ic (OneOf ps) c = (canonicalize ic c \<in> canonicalize ic ` set ps)"
| "atom_matches ic Digit c = is_digit c"

text \<open>
  A match state is the input still to be read and the captures made so far. The matcher
  returns the states in which a term can end, in the order in which backtracking tries
  them: the first alternative before the second, one more repetition before one less.
  An iteration of \<^verbatim>\<open>?\<close> that reads nothing is rejected, as \<^verbatim>\<open>RepeatMatcher\<close> does.
\<close>

type_synonym captures = "nat \<Rightarrow> string option"
type_synonym mstate = "string \<times> captures"

fun rx_run :: "bool \<Rightarrow> regex \<Rightarrow> mstate \<Rightarrow> mstate list" where
  "rx_run ic Eps st = [st]"
| "rx_run ic (Atom a) (s, caps) =
     (case s of [] \<Rightarrow> [] | c # cs \<Rightarrow> if atom_matches ic a c then [(cs, caps)] else [])"
| "rx_run ic (Seq r1 r2) st = concat (map (rx_run ic r2) (rx_run ic r1 st))"
| "rx_run ic (Alt r1 r2) st = rx_run ic r1 st @ rx_run ic r2 st"
| "rx_run ic (Opt r) (s, caps) =
     filter (\<lambda>(s', caps'). length s' \<noteq> length s) (rx_run ic r (s, caps)) @ [(s, caps)]"
| "rx_run ic (Plus a) (s, caps) =
     map (\<lambda>k. (drop k s, caps)) (rev [1 ..< Suc (length (takeWhile (atom_matches ic a) s))])"
| "rx_run ic (Group n r) (s, caps) =
     map (\<lambda>(s', caps'). (s', caps'(n \<mapsto> take (length s - length s') s)))
       (rx_run ic r (s, caps))"

fun rx_groups :: "regex \<Rightarrow> nat" where
  "rx_groups Eps = 0"
| "rx_groups (Atom a) = 0"
| "rx_groups (Seq r1 r2) = rx_groups r1 + rx_groups r2"
| "rx_groups (Alt r1 r2) = rx_groups r1 + rx_groups r2"
| "rx_groups (Opt r) = rx_groups r"
| "rx_groups (Plus a) = 0"
| "rx_groups (Group n r) = Suc (rx_groups r)"

text \<open>
  \<^verbatim>\<open>RegExpBuiltinExec\<close> for a pattern that is neither global nor sticky: the match
  is tried at index 0, then 1, and so on up to the length of the string; the first index
  at which the pattern matches wins, with the first way of matching there. The result is
  the index, the matched text and the captures.
\<close>

record rx_match =
  m_index :: nat
  m_text :: string
  m_captures :: "string option list"

fun rx_exec_from :: "bool \<Rightarrow> regex \<Rightarrow> nat \<Rightarrow> string \<Rightarrow> rx_match option" where
  "rx_exec_from ic r i s =
     (case rx_run ic r (s, Map.empty) of
        (s', caps) # _ \<Rightarrow>
          Some \<lparr>m_index = i, m_text = take (length s - length s') s,
                m_captures = map caps [1 ..< Suc (rx_groups r)]\<rparr>
      | [] \<Rightarrow> (case s of [] \<Rightarrow> None | _ # cs \<Rightarrow> rx_exec_from ic r (Suc i) cs))"

declare rx_exec_from.simps [simp del]

definition rx_exec :: "bool \<Rightarrow> regex \<Rightarrow> string \<Rightarrow> rx_match option" where
  "rx_exec ic r s = rx_exec_from ic r 0 s"

text \<open>
  \<^verbatim>\<open>GetSubstitution\<close>: the replacement text for one match. In the template,
  \<^verbatim>\<open>$$\<close> is a dollar sign, \<^verbatim>\<open>$&\<close> the matched text, \<^verbatim>\<open>$`\<close> and \<^verbatim>\<open>$'\<close> the
  text before and after the match, \<^verbatim>\<open>$n\<close> and \<^verbatim>\<open>$nn\<close> a capture (two digits that
  exceed the number of groups are read as one digit and a literal digit); an undefined
  capture is the empty string, and any other dollar sign stands for itself. The pattern
  has no named groups, so \<^verbatim>\<open>$<\<close> is literal text too.
\<close>

definition digit_value :: "char \<Rightarrow> nat" where
  "digit_value c = of_char c - 48"

definition capture_text :: "string option list \<Rightarrow> nat \<Rightarrow> string" where
  "capture_text caps index = (case caps ! (index - 1) of None \<Rightarrow> [] | Some t \<Rightarrow> t)"

fun get_substitution :: "string \<Rightarrow> string \<Rightarrow> nat \<Rightarrow> string option list \<Rightarrow> string \<Rightarrow> string" where
  "get_substitution matched str position caps [] = []"
| "get_substitution matched str position caps [c] = [c]"
| "get_substitution matched str position caps (c # d # rest) =
     (if c \<noteq> CHR ''$'' then c # get_substitution matched str position caps (d # rest)
      else if d = CHR ''$'' then CHR ''$'' # get_substitution matched str position caps rest
      else if d = CHR 0x60 then
        take position str @ get_substitution matched str position caps rest
      else if d = CHR ''&'' then matched @ get_substitution matched str position caps rest
      else if d = CHR 0x27 then
        drop (min (position + length matched) (length str)) str
          @ get_substitution matched str position caps rest
      else if is_digit d then
        (case rest of
           e # rest' \<Rightarrow>
             if is_digit e \<and> 10 * digit_value d + digit_value e \<le> length caps then
               (if 1 \<le> 10 * digit_value d + digit_value e
                then capture_text caps (10 * digit_value d + digit_value e)
                       @ get_substitution matched str position caps rest'
                else [c, d, e] @ get_substitution matched str position caps rest')
             else if 1 \<le> digit_value d \<and> digit_value d \<le> length caps then
               capture_text caps (digit_value d)
                 @ get_substitution matched str position caps rest
             else [c, d] @ get_substitution matched str position caps rest
         | [] \<Rightarrow>
             if 1 \<le> digit_value d \<and> digit_value d \<le> length caps then
               capture_text caps (digit_value d)
             else [c, d])
      else c # get_substitution matched str position caps (d # rest))"

text \<open>
  \<^verbatim>\<open>String.prototype.match\<close> used as a condition (the result is an array, truthy, or
  \<^verbatim>\<open>null\<close>), and \<^verbatim>\<open>String.prototype.replace\<close> with a pattern that is not global:
  only the first match is replaced.
\<close>

record regexp =
  pattern :: regex
  ignoreCase :: bool

definition js_match :: "regexp \<Rightarrow> string \<Rightarrow> bool" where
  "js_match re s = (rx_exec (ignoreCase re) (pattern re) s \<noteq> None)"

definition js_replace :: "regexp \<Rightarrow> string \<Rightarrow> string \<Rightarrow> string" where
  "js_replace re template s =
     (case rx_exec (ignoreCase re) (pattern re) s of
        None \<Rightarrow> s
      | Some m \<Rightarrow>
          take (m_index m) s
            @ get_substitution (m_text m) s (m_index m) (m_captures m) template
            @ drop (m_index m + length (m_text m)) s)"

text \<open>\<^verbatim>\<open>/(fix|close|resolve)(e?s|e?d)? [T#](\d+)/i\<close>\<close>

fun chars :: "string \<Rightarrow> regex" where
  "chars [] = Eps"
| "chars (c # cs) = Seq (Atom (Chr c)) (chars cs)"

definition fix_word :: regex where
  "fix_word = Group 1 (Alt (chars ''fix'') (Alt (chars ''close'') (chars ''resolve'')))"

definition fix_ending :: regex where
  "fix_ending =
     Opt (Group 2 (Alt (Seq (Opt (Atom (Chr CHR ''e''))) (Atom (Chr CHR ''s'')))
                       (Seq (Opt (Atom (Chr CHR ''e''))) (Atom (Chr CHR ''d'')))))"

definition fix_reference :: regex where
  "fix_reference =
     Seq (Atom (Chr CHR '' '')) (Seq (Atom (OneOf ''T#'')) (Group 3 (Plus Digit)))"

definition COMMIT_FIX_PATTERN :: regex where
  "COMMIT_FIX_PATTERN = Seq fix_word (Seq fix_ending fix_reference)"

definition COMMIT_FIX_REGEX :: regexp where
  "COMMIT_FIX_REGEX = \<lparr>pattern = COMMIT_FIX_PATTERN, ignoreCase = True\<rparr>"

section \<open>The data the renderer reads\<close>

text \<open>
  The interfaces of \<^verbatim>\<open>./interfaces\<close> and \<^verbatim>\<open>./github-api\<close>, with the fields the
  renderer reads. A field that the code tests before use is optional here. Field names
  that several interfaces share carry the interface as a prefix.

  The renderer assigns to one field only, the title of an issue (line 119). Issues
  therefore live in a store and a commit holds a reference to its issue, so that two
  commits, or one commit rendered under two categories, see each other's assignment.
  Releases, commits and contributors are never assigned to, and are plain values.
\<close>

record UserLink =
  login :: string
  html_url :: string

record GitHubUserResponse = UserLink +
  name :: "string option"

record PullRequestLink =
  pr_html_url :: "string option"

record GitHubIssueResponse =
  number :: "nat option"
  title :: "string option"
  pull_request :: "PullRequestLink option"
  user :: UserLink

type_synonym issue_ref = nat
type_synonym issue_store = "issue_ref \<Rightarrow> GitHubIssueResponse"

record CommitInfo =
  githubIssue :: "issue_ref option"
  commit_categories :: "string list option"
  packages :: "string list option"

record Release =
  release_name :: string
  date :: string
  commits :: "CommitInfo list"
  contributors :: "GitHubUserResponse list option"

record CategoryInfo =
  category_name :: string
  category_commits :: "CommitInfo list"

record Options =
  categories :: "string list"
  baseIssueUrl :: string

text \<open>What JavaScript takes for true in a condition: a number other than 0, a string other
  than the empty one; \<^verbatim>\<open>undefined\<close> is false.\<close>

definition truthy_number :: "nat option \<Rightarrow> bool" where
  "truthy_number n = (case n of None \<Rightarrow> False | Some k \<Rightarrow> k \<noteq> 0)"

definition truthy_string :: "string option \<Rightarrow> bool" where
  "truthy_string s = (case s of None \<Rightarrow> False | Some t \<Rightarrow> t \<noteq> [])"

text \<open>A value inside a template literal; \<^verbatim>\<open>undefined\<close> prints as its name.\<close>

definition template_string :: "string option \<Rightarrow> string" where
  "template_string s = (case s of None \<Rightarrow> ''undefined'' | Some t \<Rightarrow> t)"

text \<open>\<^verbatim>\<open>Array.prototype.map\<close> with a callback that assigns to the store: the elements
  are visited in order.\<close>

fun map_store :: "('s \<Rightarrow> 'a \<Rightarrow> 's \<times> 'b) \<Rightarrow> 's \<Rightarrow> 'a list \<Rightarrow> 's \<times> 'b list" where
  "map_store f h [] = (h, [])"
| "map_store f h (x # xs) =
     (case f h x of (h1, y) \<Rightarrow> (case map_store f h1 xs of (h2, ys) \<Rightarrow> (h2, y # ys)))"

text \<open>\<^verbatim>\<open>.filter(Boolean)\<close> on the results of \<^verbatim>\<open>renderContribution\<close> and of
  \<^verbatim>\<open>renderRelease\<close>.\<close>

definition filter_Boolean :: "string option list \<Rightarrow> string list" where
  "filter_Boolean rs = map the (filter truthy_string rs)"

section \<open>The renderer\<close>

definition UNRELEASED_TAG :: string where
  "UNRELEASED_TAG = ''___unreleased___''"

definition fix_template :: "Options \<Rightarrow> string" where
  "fix_template opts = ''Closes [#$3]('' @ baseIssueUrl opts @ ''$3)''"

text \<open>Line 113 to 116: the link to the pull request.\<close>

definition pr_prefix :: "GitHubIssueResponse \<Rightarrow> string" where
  "pr_prefix issue =
     (if truthy_number (number issue) then
        (case pull_request issue of
           None \<Rightarrow> []
         | Some pr \<Rightarrow>
             if truthy_string (pr_html_url pr)
             then ''[#'' @ string_of_nat (the (number issue)) @ '']('' 
                    @ the (pr_html_url pr) @ '') ''
             else [])
      else [])"

definition renderContribution ::
  "Options \<Rightarrow> issue_store \<Rightarrow> CommitInfo \<Rightarrow> issue_store \<times> string option" where
  "renderContribution opts h commit =
     (case githubIssue commit of
        None \<Rightarrow> (h, None)
      | Some r \<Rightarrow>
          (let issue = h r;
               markdown = pr_prefix issue;
               h' = (if truthy_string (title issue)
                        \<and> js_match COMMIT_FIX_REGEX (the (title issue))
                     then h(r := issue\<lparr>title :=
                            Some (js_replace COMMIT_FIX_REGEX (fix_template opts)
                                    (the (title issue)))\<rparr>)
                     else h);
               issue' = h' r
           in (h', Some (markdown @ template_string (title issue') @ ''. ([@''
                           @ login (user issue') @ '']('' @ html_url (user issue') @ ''))''))))"

definition renderContributionList ::
  "Options \<Rightarrow> issue_store \<Rightarrow> CommitInfo list \<Rightarrow> string \<Rightarrow> issue_store \<times> string" where
  "renderContributionList opts h cs prefix =
     (case map_store (renderContribution opts) h cs of
        (h', rendered) \<Rightarrow>
          (h', join_str ''\<newline>'' (map (\<lambda>r. prefix @ ''* '' @ r) (filter_Boolean rendered))))"

definition renderPackageNames :: "string list \<Rightarrow> string" where
  "renderPackageNames packageNames =
     (if length packageNames > 0
      then join_str '', '' (map (\<lambda>pkg. [CHR 0x60] @ pkg @ [CHR 0x60]) packageNames)
      else ''Other'')"

text \<open>
  \<^verbatim>\<open>commitsByPackage\<close> is an object used as a dictionary, and \<^verbatim>\<open>Object.keys\<close>
  lists string keys in the order of their first assignment. (Keys that are array
  indices would come first; a key made by \<^verbatim>\<open>renderPackageNames\<close> is \<^verbatim>\<open>Other\<close> or
  begins with a backtick, so none is.) An association list in insertion order models it.
\<close>

fun push_commit ::
  "string \<Rightarrow> CommitInfo \<Rightarrow> (string \<times> CommitInfo list) list \<Rightarrow> (string \<times> CommitInfo list) list" where
  "push_commit k c [] = [(k, [c])]"
| "push_commit k c ((k', cs) # g) =
     (if k' = k then (k', cs @ [c]) # g else (k', cs) # push_commit k c g)"

definition changedPackages :: "CommitInfo \<Rightarrow> string list" where
  "changedPackages commit = (case packages commit of None \<Rightarrow> [] | Some ps \<Rightarrow> ps)"

definition commitsByPackage :: "CommitInfo list \<Rightarrow> (string \<times> CommitInfo list) list" where
  "commitsByPackage cs =
     foldl (\<lambda>g commit. push_commit (renderPackageNames (changedPackages commit)) commit g) [] cs"

definition renderContributionsByPackage ::
  "Options \<Rightarrow> issue_store \<Rightarrow> CommitInfo list \<Rightarrow> issue_store \<times> string" where
  "renderContributionsByPackage opts h cs =
     (case map_store
             (\<lambda>h1 (packageName, group).
                case renderContributionList opts h1 group ''  '' of
                  (h2, l) \<Rightarrow> (h2, ''* '' @ packageName @ ''\<newline>'' @ l))
             h (commitsByPackage cs) of
        (h', parts) \<Rightarrow> (h', join_str ''\<newline>'' parts))"

definition hasPackages :: "CommitInfo list \<Rightarrow> bool" where
  "hasPackages cs =
     list_ex (\<lambda>commit. case packages commit of None \<Rightarrow> False | Some ps \<Rightarrow> length ps > 0) cs"

definition renderContributor :: "GitHubUserResponse \<Rightarrow> string" where
  "renderContributor contributor =
     (let userNameAndLink = ''['' @ login contributor @ '']('' @ html_url contributor @ '')''
      in if truthy_string (name contributor)
         then template_string (name contributor) @ '' ('' @ userNameAndLink @ '')''
         else userNameAndLink)"

definition renderContributorList :: "GitHubUserResponse list \<Rightarrow> string" where
  "renderContributorList cs =
     (let renderedContributors = sort (map (\<lambda>contributor. ''- '' @ renderContributor contributor) cs)
      in ''#### Committers: '' @ string_of_nat (length cs) @ ''\<newline>''
           @ join_str ''\<newline>'' renderedContributors)"

definition carries :: "string \<Rightarrow> CommitInfo \<Rightarrow> bool" where
  "carries name' commit =
     (case commit_categories commit of None \<Rightarrow> False | Some cats \<Rightarrow> name' \<in> set cats)"

definition groupByCategory :: "Options \<Rightarrow> CommitInfo list \<Rightarrow> CategoryInfo list" where
  "groupByCategory opts allCommits =
     map (\<lambda>name'. \<lparr>category_name = name', category_commits = filter (carries name') allCommits\<rparr>)
       (categories opts)"

text \<open>The body of the loop of \<^verbatim>\<open>renderRelease\<close> (lines 46 to 58), and the loop. The
  calls to the progress bar print to the terminal and are left out.\<close>

definition render_category ::
  "Options \<Rightarrow> issue_store \<times> string \<Rightarrow> CategoryInfo \<Rightarrow> issue_store \<times> string" where
  "render_category opts acc category =
     (case acc of (h, markdown) \<Rightarrow>
        (case (if hasPackages (category_commits category)
               then renderContributionsByPackage opts h (category_commits category)
               else renderContributionList opts h (category_commits category) [])
         of (h', part) \<Rightarrow>
           (h', markdown @ ''\<newline>\<newline>#### '' @ category_name category @ ''\<newline>'' @ part)))"

definition renderRelease :: "Options \<Rightarrow> issue_store \<Rightarrow> Release \<Rightarrow> issue_store \<times> string" where
  "renderRelease opts h release =
     (let categories' = groupByCategory opts (commits release);
          categoriesWithCommits =
            filter (\<lambda>category. length (category_commits category) > 0) categories'
      in if length categoriesWithCommits = 0 then (h, [])
         else
           (let releaseTitle =
                  (if release_name release = UNRELEASED_TAG then ''Unreleased''
                   else release_name release);
                markdown = ''## '' @ releaseTitle @ '' ('' @ date release @ '')''
            in case foldl (render_category opts) (h, markdown) categoriesWithCommits of
                 (h', markdown') \<Rightarrow>
                   (case contributors release of
                      None \<Rightarrow> (h', markdown')
                    | Some cs \<Rightarrow>
                        (h', markdown' @ ''\<newline>\<newline>'' @ renderContributorList cs))))"

definition renderMarkdown :: "Options \<Rightarrow> issue_store \<Rightarrow> Release list \<Rightarrow> issue_store \<times> string" where
  "renderMarkdown opts h releases =
     (case map_store (renderRelease opts) h releases of
        (h', rendered) \<Rightarrow>
          (h', ''\<newline>'' @ join_str ''\<newline>\<newline>\<newline>'' (filter_Boolean (map Some rendered))))"

section \<open>Notions used to state the properties\<close>

text \<open>The issues that a list of commits links to.\<close>

definition issue_refs :: "CommitInfo list \<Rightarrow> issue_ref set" where
  "issue_refs cs = set (List.map_filter githubIssue cs)"

text \<open>The condition of line 118 and the assignment of line 119 as functions of the title:
  what one rendering of a commit does to the title of its issue.\<close>

definition title_matches :: "string option \<Rightarrow> bool" where
  "title_matches t = (truthy_string t \<and> js_match COMMIT_FIX_REGEX (the t))"

definition rewrite_title :: "Options \<Rightarrow> string option \<Rightarrow> string option" where
  "rewrite_title opts t =
     (if title_matches t
      then Some (js_replace COMMIT_FIX_REGEX (fix_template opts) (the t))
      else t)"

definition rewrite_issue :: "Options \<Rightarrow> GitHubIssueResponse \<Rightarrow> GitHubIssueResponse" where
  "rewrite_issue opts issue = issue\<lparr>title := rewrite_title opts (title issue)\<rparr>"

text \<open>The store in which the issues of \<open>V\<close> have had their title rewritten once.\<close>

definition settle :: "Options \<Rightarrow> issue_ref set \<Rightarrow> issue_store \<Rightarrow> issue_store" where
  "settle opts V h = (\<lambda>r. if r \<in> V then rewrite_issue opts (h r) else h r)"

text \<open>
  The phrases that the pattern describes, read off the pattern without the matcher: one
  of the words fix, close, resolve, an ending s, es, d or ed or none, a space, one of
  \<^verbatim>\<open>#\<close> and \<^verbatim>\<open>T\<close>, and the digits of the issue number, letters in either case.
  \<open>fix_phrase w n\<close> says that \<open>w\<close> is such a phrase for the number \<open>n\<close>.
\<close>

definition same_ignoring_case :: "string \<Rightarrow> string \<Rightarrow> bool" where
  "same_ignoring_case a b = (map (canonicalize True) a = map (canonicalize True) b)"

definition fix_keywords :: "string list" where
  "fix_keywords = [''fix'', ''close'', ''resolve'']"

definition fix_endings :: "string list" where
  "fix_endings = ['''', ''s'', ''es'', ''d'', ''ed'']"

definition fix_phrase :: "string \<Rightarrow> string \<Rightarrow> bool" where
  "fix_phrase w n =
     (n \<noteq> [] \<and> list_all is_digit n \<and>
      list_ex (\<lambda>kw. list_ex (\<lambda>e. list_ex (\<lambda>m.
          same_ignoring_case w (kw @ e @ '' '' @ [m] @ n)) ''#T'') fix_endings) fix_keywords)"

text \<open>Every issue of \<open>R\<close> has a title that one rewrite brings to a title that no
  longer matches.\<close>

definition settled_once :: "Options \<Rightarrow> issue_ref set \<Rightarrow> issue_store \<Rightarrow> bool" where
  "settled_once opts R h = (\<forall>r\<in>R. \<not> title_matches (rewrite_title opts (title (h r))))"


text \<open>The issues whose commits are rendered under a category, and in a release.\<close>

definition category_refs :: "CategoryInfo \<Rightarrow> issue_ref set" where
  "category_refs cat =
     (if hasPackages (category_commits cat)
      then (\<Union>x\<in>set (commitsByPackage (category_commits cat)). issue_refs (snd x))
      else issue_refs (category_commits cat))"

definition release_refs :: "Options \<Rightarrow> Release \<Rightarrow> issue_ref set" where
  "release_refs opts rel =
     (\<Union>cat\<in>set (filter (\<lambda>category. length (category_commits category) > 0)
                    (groupByCategory opts (commits rel))). category_refs cat)"

text \<open>\<open>p\<close> is a prefix of \<open>s\<close> up to the case of letters.\<close>

definition ci_prefix :: "string \<Rightarrow> string \<Rightarrow> bool" where
  "ci_prefix p s = (length p \<le> length s \<and> same_ignoring_case (take (length p) s) p)"

text \<open>The label under which \<^verbatim>\<open>renderContributionsByPackage\<close> files a commit.\<close>

definition package_label :: "CommitInfo \<Rightarrow> string" where
  "package_label commit = renderPackageNames (changedPackages commit)"

subsection \<open>Example data\<close>

definition example_options :: Options where
  "example_options =
     \<lparr>categories = [''Bug'', ''Feature''], baseIssueUrl = ''https://example.com/issues/''\<rparr>"

definition example_issue :: "string \<Rightarrow> GitHubIssueResponse" where
  "example_issue t =
     \<lparr>number = Some 7, title = Some t,
      pull_request = Some \<lparr>pr_html_url = Some ''https://example.com/pull/7''\<rparr>,
      user = \<lparr>login = ''alice'', html_url = ''https://github.com/alice''\<rparr>\<rparr>"

definition example_store :: "string \<Rightarrow> issue_store" where
  "example_store t = (\<lambda>r. example_issue t)"

definition example_commit :: "string list \<Rightarrow> string list option \<Rightarrow> CommitInfo" where
  "example_commit cats pkgs =
     \<lparr>githubIssue = Some 0, commit_categories = Some cats, packages = pkgs\<rparr>"

definition plain_commit :: "string list \<Rightarrow> string list option \<Rightarrow> CommitInfo" where
  "plain_commit cats pkgs =
     \<lparr>githubIssue = None, commit_categories = Some cats, packages = pkgs\<rparr>"

definition example_release :: "CommitInfo list \<Rightarrow> Release" where
  "example_release cs =
     \<lparr>release_name = UNRELEASED_TAG, date = ''2020-01-01'', commits = cs, contributors = None\<rparr>"

text \<open>A store with two issues and a release with two commits, one under a configured
  category and one under a category that is not configured.\<close>

definition two_issue_store :: issue_store where
  "two_issue_store = (example_store ''fixes #42'')(1 := example_issue ''fix #1 fix #2'')"

definition two_commit_release :: Release where
  "two_commit_release =
     example_release [example_commit [''Bug''] None,
                      (example_commit [''Docs''] None)\<lparr>githubIssue := Some 1\<rparr>]"

section \<open>Lemmas\<close>

subsection \<open>The matcher on the pattern\<close>

lemma ci_prefix_Nil [simp]: "ci_prefix [] s"
  by (simp add: ci_prefix_def same_ignoring_case_def)

lemma ci_prefix_Cons_Nil [simp]: "\<not> ci_prefix (x # xs) []"
  by (simp add: ci_prefix_def)

lemma ci_prefix_Cons_Cons [simp]:
  "ci_prefix (x # xs) (y # ys) = (canonicalize True y = canonicalize True x \<and> ci_prefix xs ys)"
  by (auto simp: ci_prefix_def same_ignoring_case_def)

lemma run_chars:
  "rx_run True (chars p) (s, c) = (if ci_prefix p s then [(drop (length p) s, c)] else [])"
proof (induction p arbitrary: s)
  case Nil
  then show ?case by simp
next
  case (Cons x xs)
  then show ?case by (cases s) auto
qed

lemma canon_consts [simp]:
  "canonicalize True CHR ''f'' = CHR ''F''"
  "canonicalize True CHR ''i'' = CHR ''I''"
  "canonicalize True CHR ''x'' = CHR ''X''"
  "canonicalize True CHR ''c'' = CHR ''C''"
  "canonicalize True CHR ''l'' = CHR ''L''"
  "canonicalize True CHR ''o'' = CHR ''O''"
  "canonicalize True CHR ''s'' = CHR ''S''"
  "canonicalize True CHR ''e'' = CHR ''E''"
  "canonicalize True CHR ''r'' = CHR ''R''"
  "canonicalize True CHR ''v'' = CHR ''V''"
  "canonicalize True CHR ''d'' = CHR ''D''"
  "canonicalize True CHR '' '' = CHR '' ''"
  "canonicalize True CHR ''T'' = CHR ''T''"
  "canonicalize True CHR ''#'' = CHR ''#''"
  by (simp_all add: canonicalize_def upper_table_def)

lemma canon_cases:
  "canonicalize True c = c \<or>
   (c \<in> set ''abcdefghijklmnopqrstuvwxyz'' \<and> canonicalize True c \<in> set ''ABCDEFGHIJKLMNOPQRSTUVWXYZ'')"
proof (cases "map_of upper_table c")
  case None
  then show ?thesis by (simp add: canonicalize_def)
next
  case (Some u)
  then have "(c, u) \<in> set upper_table" by (rule map_of_SomeD)
  then have "c \<in> set ''abcdefghijklmnopqrstuvwxyz'' \<and> u \<in> set ''ABCDEFGHIJKLMNOPQRSTUVWXYZ''"
    unfolding upper_table_def by (meson set_zip_leftD set_zip_rightD)
  with Some show ?thesis by (simp add: canonicalize_def)
qed

lemma digit_not_letter:
  "is_digit d \<Longrightarrow> d \<notin> set ''abcdefghijklmnopqrstuvwxyz'' \<and> d \<notin> set ''ABCDEFGHIJKLMNOPQRSTUVWXYZ''"
  by (auto simp: is_digit_def digit_chars_def)

lemma canon_digit: "is_digit d \<Longrightarrow> canonicalize True c = d \<longleftrightarrow> c = d"
  using canon_cases[of c] canon_cases[of d] digit_not_letter[of d] by auto

lemma ci_prefix_length: "ci_prefix p s \<Longrightarrow> length p \<le> length s"
  by (simp add: ci_prefix_def)

lemma run_fix_word:
  "rx_run True fix_word (s, c) =
     (if ci_prefix ''fix'' s then [(drop 3 s, c(1 \<mapsto> take 3 s))] else [])
     @ (if ci_prefix ''close'' s then [(drop 5 s, c(1 \<mapsto> take 5 s))] else [])
     @ (if ci_prefix ''resolve'' s then [(drop 7 s, c(1 \<mapsto> take 7 s))] else [])"
proof -
  have "rx_run True fix_word (s, c) =
     map (\<lambda>(s', caps'). (s', caps'(1 \<mapsto> take (length s - length s') s)))
      ((if ci_prefix ''fix'' s then [(drop (length ''fix'') s, c)] else [])
       @ (if ci_prefix ''close'' s then [(drop (length ''close'') s, c)] else [])
       @ (if ci_prefix ''resolve'' s then [(drop (length ''resolve'') s, c)] else []))"
    unfolding fix_word_def by (simp only: rx_run.simps run_chars)
  also have "\<dots> = (if ci_prefix ''fix'' s then [(drop 3 s, c(1 \<mapsto> take 3 s))] else [])
     @ (if ci_prefix ''close'' s then [(drop 5 s, c(1 \<mapsto> take 5 s))] else [])
     @ (if ci_prefix ''resolve'' s then [(drop 7 s, c(1 \<mapsto> take 7 s))] else [])"
    using ci_prefix_length[of "''fix''" s] ci_prefix_length[of "''close''" s]
      ci_prefix_length[of "''resolve''" s]
    by (simp add: eval_nat_numeral del: ci_prefix_Cons_Cons ci_prefix_Cons_Nil)
  finally show ?thesis .
qed

lemma run_fix_ending:
  "rx_run True fix_ending (s, c) =
     (if ci_prefix ''es'' s then [(drop 2 s, c(2 \<mapsto> take 2 s))] else [])
     @ (if ci_prefix ''s'' s then [(drop 1 s, c(2 \<mapsto> take 1 s))] else [])
     @ (if ci_prefix ''ed'' s then [(drop 2 s, c(2 \<mapsto> take 2 s))] else [])
     @ (if ci_prefix ''d'' s then [(drop 1 s, c(2 \<mapsto> take 1 s))] else [])
     @ [(s, c)]"
proof (cases s)
  case Nil
  then show ?thesis by (simp add: fix_ending_def)
next
  case (Cons y ys)
  show ?thesis
  proof (cases ys)
    case Nil
    with Cons show ?thesis by (simp add: fix_ending_def eval_nat_numeral)
  next
    case (Cons z zs)
    with \<open>s = y # ys\<close> show ?thesis by (simp add: fix_ending_def eval_nat_numeral)
  qed
qed

lemma run_digits:
  "rx_run True (Group 3 (Plus Digit)) (s2, c) =
     map (\<lambda>k. (drop k s2, c(3 \<mapsto> take k s2))) (rev [1 ..< Suc (length (takeWhile is_digit s2))])"
proof -
  have a: "atom_matches True Digit = is_digit" by (rule ext) simp
  have b: "\<And>x. x \<le> length (takeWhile is_digit s2) \<Longrightarrow> length s2 - (length s2 - x) = x"
    using length_takeWhile_le[of is_digit s2] by simp
  show ?thesis
    by (auto simp: a comp_def b)
qed

lemma run_fix_reference:
  "rx_run True fix_reference (s, c) =
     (case s of
        a # b # s2 \<Rightarrow>
          if canonicalize True a = CHR '' '' \<and> canonicalize True b \<in> {CHR ''T'', CHR ''#''}
          then map (\<lambda>k. (drop k s2, c(3 \<mapsto> take k s2)))
                 (rev [1 ..< Suc (length (takeWhile is_digit s2))])
          else []
      | _ \<Rightarrow> [])"
proof (cases s)
  case Nil
  then show ?thesis by (simp add: fix_reference_def)
next
  case (Cons a s1)
  show ?thesis
  proof (cases s1)
    case Nil
    with \<open>s = a # s1\<close> show ?thesis by (simp add: fix_reference_def)
  next
    case (Cons b s2)
    have "rx_run True fix_reference (a # b # s2, c) =
         (if canonicalize True a = CHR '' '' \<and> canonicalize True b \<in> {CHR ''T'', CHR ''#''}
          then rx_run True (Group 3 (Plus Digit)) (s2, c) else [])"
      unfolding fix_reference_def by (simp del: rx_run.simps(6,7))
    with Cons \<open>s = a # s1\<close> show ?thesis by (simp add: run_digits del: rx_run.simps)
  qed
qed


lemma sic_Cons_iff:
  "same_ignoring_case w (x # xs) \<longleftrightarrow>
     (\<exists>y ys. w = y # ys \<and> canonicalize True y = canonicalize True x \<and> same_ignoring_case ys xs)"
  by (auto simp: same_ignoring_case_def map_eq_Cons_conv)

lemma sic_Nil_iff: "same_ignoring_case w [] \<longleftrightarrow> w = []"
  by (simp add: same_ignoring_case_def)


lemma run_ending_reference:
  assumes "e \<in> set fix_endings" and "same_ignoring_case we e"
    and "canonicalize True b \<in> {CHR ''T'', CHR ''#''}"
  shows "concat (map (rx_run True fix_reference) (rx_run True fix_ending (we @ CHR '' '' # b # s2, c))) =
           map (\<lambda>k. (drop k s2, (if we = [] then c else c(2 \<mapsto> we))(3 \<mapsto> take k s2)))
             (rev [1 ..< Suc (length (takeWhile is_digit s2))])"
proof -
  from assms(1) consider "e = []" | "e = ''s''" | "e = ''es''" | "e = ''d''" | "e = ''ed''"
    by (auto simp: fix_endings_def)
  then show ?thesis
  proof cases
    case 1
    with assms show ?thesis
      by (simp add: sic_Nil_iff run_fix_ending run_fix_reference)
  next
    case 2
    with assms(2) obtain k where "we = [k]" "canonicalize True k = CHR ''S''"
      by (auto simp: sic_Cons_iff sic_Nil_iff)
    with assms(3) show ?thesis
      by (simp add: run_fix_ending run_fix_reference)
  next
    case 3
    with assms(2) obtain k l where "we = [k, l]" "canonicalize True k = CHR ''E''"
       "canonicalize True l = CHR ''S''"
      by (auto simp: sic_Cons_iff sic_Nil_iff)
    with assms(3) show ?thesis
      by (simp add: run_fix_ending run_fix_reference)
  next
    case 4
    with assms(2) obtain k where "we = [k]" "canonicalize True k = CHR ''D''"
      by (auto simp: sic_Cons_iff sic_Nil_iff)
    with assms(3) show ?thesis
      by (simp add: run_fix_ending run_fix_reference)
  next
    case 5
    with assms(2) obtain k l where "we = [k, l]" "canonicalize True k = CHR ''E''"
       "canonicalize True l = CHR ''D''"
      by (auto simp: sic_Cons_iff sic_Nil_iff)
    with assms(3) show ?thesis
      by (simp add: run_fix_ending run_fix_reference)
  qed
qed


lemma run_word_phrase:
  assumes "kw \<in> set fix_keywords" and "same_ignoring_case wk kw"
  shows "rx_run True fix_word (wk @ s1, c) = [(s1, c(1 \<mapsto> wk))]"
proof -
  from assms(1) consider "kw = ''fix''" | "kw = ''close''" | "kw = ''resolve''"
    by (auto simp: fix_keywords_def)
  then show ?thesis
  proof cases
    case 1
    with assms(2) show ?thesis
      by (auto simp: sic_Cons_iff sic_Nil_iff run_fix_word eval_nat_numeral)
  next
    case 2
    with assms(2) show ?thesis
      by (auto simp: sic_Cons_iff sic_Nil_iff run_fix_word eval_nat_numeral)
  next
    case 3
    with assms(2) show ?thesis
      by (auto simp: sic_Cons_iff sic_Nil_iff run_fix_word eval_nat_numeral)
  qed
qed

lemma run_pattern_phrase:
  assumes "kw \<in> set fix_keywords" "e \<in> set fix_endings"
    and "same_ignoring_case wk kw" "same_ignoring_case we e"
    and "canonicalize True b \<in> {CHR ''T'', CHR ''#''}"
  shows "rx_run True COMMIT_FIX_PATTERN (wk @ we @ CHR '' '' # b # s2, c) =
           map (\<lambda>k. (drop k s2, (if we = [] then c(1 \<mapsto> wk) else c(1 \<mapsto> wk, 2 \<mapsto> we))(3 \<mapsto> take k s2)))
             (rev [1 ..< Suc (length (takeWhile is_digit s2))])"
proof -
  have "rx_run True COMMIT_FIX_PATTERN (wk @ we @ CHR '' '' # b # s2, c) =
    concat (map (rx_run True fix_reference)
       (rx_run True fix_ending (we @ CHR '' '' # b # s2, c(1 \<mapsto> wk))))"
    unfolding COMMIT_FIX_PATTERN_def
    by (simp only: rx_run.simps(3) run_word_phrase[OF assms(1,3)]) simp
  also have "\<dots> = map (\<lambda>k. (drop k s2, (if we = [] then c(1 \<mapsto> wk) else c(1 \<mapsto> wk, 2 \<mapsto> we))(3 \<mapsto> take k s2)))
             (rev [1 ..< Suc (length (takeWhile is_digit s2))])"
    by (simp only: run_ending_reference[OF assms(2,4,5)])
  finally show ?thesis .
qed

lemma digits_same: "list_all is_digit n \<Longrightarrow> same_ignoring_case wn n \<Longrightarrow> wn = n"
  unfolding same_ignoring_case_def
proof (induction n arbitrary: wn)
  case Nil
  then show ?case by simp
next
  case (Cons d ds)
  then obtain x xs where "wn = x # xs" "canonicalize True x = canonicalize True d"
      "map (canonicalize True) xs = map (canonicalize True) ds"
    by (auto simp: map_eq_Cons_conv)
  moreover from Cons.prems(1) have "is_digit d" "list_all is_digit ds" by simp_all
  ultimately show ?case using Cons.IH[of xs] canon_digit[of d x] canon_digit[of d d] by simp
qed

lemma sic_append:
  "same_ignoring_case a a' \<Longrightarrow> same_ignoring_case b b' \<Longrightarrow> same_ignoring_case (a @ b) (a' @ b')"
  by (simp add: same_ignoring_case_def)

lemma sic_refl: "same_ignoring_case a a"
  by (simp add: same_ignoring_case_def)

lemma fix_phraseI:
  assumes "kw \<in> set fix_keywords" "e \<in> set fix_endings"
    and "same_ignoring_case wk kw" "same_ignoring_case we e"
    and "canonicalize True a = CHR '' ''"
    and "canonicalize True b \<in> {CHR ''T'', CHR ''#''}"
    and "n \<noteq> []" "list_all is_digit n"
  shows "fix_phrase (wk @ we @ a # b # n) n"
proof -
  from assms(6) have "canonicalize True b = CHR ''T'' \<or> canonicalize True b = CHR ''#''"
    by simp
  then have "\<exists>m. m \<in> set ''#T'' \<and> canonicalize True b = canonicalize True m"
  proof
    assume "canonicalize True b = CHR ''T''"
    then have "CHR ''T'' \<in> set ''#T'' \<and> canonicalize True b = canonicalize True CHR ''T''"
      by simp
    then show ?thesis by blast
  next
    assume "canonicalize True b = CHR ''#''"
    then have "CHR ''#'' \<in> set ''#T'' \<and> canonicalize True b = canonicalize True CHR ''#''"
      by simp
    then show ?thesis by blast
  qed
  then obtain m where m: "m \<in> set ''#T''" "canonicalize True b = canonicalize True m"
    by blast
  have "same_ignoring_case (wk @ we @ a # b # n) (kw @ e @ '' '' @ [m] @ n)"
    using assms(3,4,5) m(2) by (simp add: same_ignoring_case_def)
  then have "list_ex (\<lambda>m. same_ignoring_case (wk @ we @ a # b # n) (kw @ e @ '' '' @ [m] @ n)) ''#T''"
    using m(1) unfolding list_ex_iff by (rule_tac x = m in bexI)
  then have "list_ex (\<lambda>e. list_ex (\<lambda>m.
       same_ignoring_case (wk @ we @ a # b # n) (kw @ e @ '' '' @ [m] @ n)) ''#T'') fix_endings"
    using assms(2) unfolding list_ex_iff[of _ fix_endings] by (rule_tac x = e in bexI)
  then have "list_ex (\<lambda>kw. list_ex (\<lambda>e. list_ex (\<lambda>m.
       same_ignoring_case (wk @ we @ a # b # n) (kw @ e @ '' '' @ [m] @ n)) ''#T'') fix_endings)
         fix_keywords"
    using assms(1) unfolding list_ex_iff[of _ fix_keywords] by (rule_tac x = kw in bexI)
  with assms(7,8) show ?thesis unfolding fix_phrase_def by simp
qed

lemma sic_append_iff:
  "same_ignoring_case w (a @ b) \<longleftrightarrow>
     (\<exists>wa wb. w = wa @ wb \<and> same_ignoring_case wa a \<and> same_ignoring_case wb b)"
proof
  assume "same_ignoring_case w (a @ b)"
  then have "map (canonicalize True) w = map (canonicalize True) a @ map (canonicalize True) b"
    by (simp add: same_ignoring_case_def)
  then obtain us vs where "w = us @ vs" "map (canonicalize True) a = map (canonicalize True) us"
      "map (canonicalize True) b = map (canonicalize True) vs"
    unfolding map_eq_append_conv by blast
  then show "\<exists>wa wb. w = wa @ wb \<and> same_ignoring_case wa a \<and> same_ignoring_case wb b"
    unfolding same_ignoring_case_def by (intro exI[of _ us] exI[of _ vs]) simp
next
  assume "\<exists>wa wb. w = wa @ wb \<and> same_ignoring_case wa a \<and> same_ignoring_case wb b"
  then show "same_ignoring_case w (a @ b)"
    by (auto simp: same_ignoring_case_def)
qed

lemma fix_phraseE:
  assumes "fix_phrase w n"
  obtains kw e wk we a b where "kw \<in> set fix_keywords" "e \<in> set fix_endings"
    "same_ignoring_case wk kw" "same_ignoring_case we e"
    "canonicalize True a = CHR '' ''" "canonicalize True b \<in> {CHR ''T'', CHR ''#''}"
    "w = wk @ we @ a # b # n" "n \<noteq> []" "list_all is_digit n"
proof -
  from assms obtain kw e m where k: "kw \<in> set fix_keywords" "e \<in> set fix_endings" "m \<in> set ''#T''"
    and s: "same_ignoring_case w (kw @ e @ '' '' @ [m] @ n)" and n: "n \<noteq> []" "list_all is_digit n"
    unfolding fix_phrase_def list_ex_iff by blast
  from s obtain wk r1 where 1: "w = wk @ r1" "same_ignoring_case wk kw"
      "same_ignoring_case r1 (e @ '' '' @ [m] @ n)"
    unfolding sic_append_iff[of w kw] by blast
  from 1(3) obtain we r2 where 2: "r1 = we @ r2" "same_ignoring_case we e"
      "same_ignoring_case r2 (CHR '' '' # m # n)"
    unfolding sic_append_iff[of r1 e] by auto
  from 2(3) obtain a b wn where 3: "r2 = a # b # wn" "canonicalize True a = CHR '' ''"
      "canonicalize True b = canonicalize True m" "same_ignoring_case wn n"
    by (auto simp: sic_Cons_iff)
  from 3(4) n(2) have "wn = n" by (simp add: digits_same)
  moreover from 3(3) k(3) have "canonicalize True b \<in> {CHR ''T'', CHR ''#''}" by auto
  ultimately show ?thesis
    using that[of kw e wk we a b] k 1(1,2) 2(1,2) 3(1,2) n by blast
qed

lemma take_digits:
  assumes "k \<le> length (takeWhile is_digit s)"
  shows "list_all is_digit (take k s)"
proof -
  have "take k s = take k (takeWhile is_digit s)"
    using assms by (metis append_eq_conv_conj takeWhile_dropWhile_id take_append take_all_iff
        append_take_drop_id diff_is_0_eq' take_0 append.right_neutral)
  then show ?thesis
    by (metis in_set_takeD list_all_iff set_takeWhileD)
qed

lemma in_run_Seq:
  "x \<in> set (rx_run ic (Seq r1 r2) st) \<longleftrightarrow>
     (\<exists>st1 \<in> set (rx_run ic r1 st). x \<in> set (rx_run ic r2 st1))"
  by simp

lemma in_run_word:
  assumes "(s1, c1) \<in> set (rx_run True fix_word (s, c))"
  shows "\<exists>kw \<in> set fix_keywords. ci_prefix kw s \<and> s1 = drop (length kw) s"
proof -
  from assms consider "ci_prefix ''fix'' s \<and> s1 = drop (length ''fix'') s"
    | "ci_prefix ''close'' s \<and> s1 = drop (length ''close'') s"
    | "ci_prefix ''resolve'' s \<and> s1 = drop (length ''resolve'') s"
    unfolding run_fix_word
    by (auto simp: eval_nat_numeral simp del: ci_prefix_Cons_Cons ci_prefix_Cons_Nil split: if_splits)
  then show ?thesis
  proof cases
    case 1
    moreover have "''fix'' \<in> set fix_keywords" by (simp add: fix_keywords_def)
    ultimately show ?thesis by blast
  next
    case 2
    moreover have "''close'' \<in> set fix_keywords" by (simp add: fix_keywords_def)
    ultimately show ?thesis by blast
  next
    case 3
    moreover have "''resolve'' \<in> set fix_keywords" by (simp add: fix_keywords_def)
    ultimately show ?thesis by blast
  qed
qed

lemma in_run_ending:
  assumes "(s2, c2) \<in> set (rx_run True fix_ending (s1, c1))"
  shows "\<exists>e \<in> set fix_endings. ci_prefix e s1 \<and> s2 = drop (length e) s1"
proof -
  from assms consider "ci_prefix ''es'' s1 \<and> s2 = drop (length ''es'') s1"
    | "ci_prefix ''s'' s1 \<and> s2 = drop (length ''s'') s1"
    | "ci_prefix ''ed'' s1 \<and> s2 = drop (length ''ed'') s1"
    | "ci_prefix ''d'' s1 \<and> s2 = drop (length ''d'') s1"
    | "ci_prefix [] s1 \<and> s2 = drop (length ([] :: string)) s1"
    unfolding run_fix_ending
    by (auto simp: eval_nat_numeral simp del: ci_prefix_Cons_Cons ci_prefix_Cons_Nil split: if_splits)
  then show ?thesis
  proof cases
    case 1
    moreover have "''es'' \<in> set fix_endings" by (simp add: fix_endings_def)
    ultimately show ?thesis by blast
  next
    case 2
    moreover have "''s'' \<in> set fix_endings" by (simp add: fix_endings_def)
    ultimately show ?thesis by blast
  next
    case 3
    moreover have "''ed'' \<in> set fix_endings" by (simp add: fix_endings_def)
    ultimately show ?thesis by blast
  next
    case 4
    moreover have "''d'' \<in> set fix_endings" by (simp add: fix_endings_def)
    ultimately show ?thesis by blast
  next
    case 5
    moreover have "[] \<in> set fix_endings" by (simp add: fix_endings_def)
    ultimately show ?thesis by blast
  qed
qed

lemma in_run_reference:
  assumes "(s', c') \<in> set (rx_run True fix_reference (s2, c2))"
  shows "\<exists>a b s3 k. s2 = a # b # s3 \<and> canonicalize True a = CHR '' ''
           \<and> canonicalize True b \<in> {CHR ''T'', CHR ''#''} \<and> s' = drop k s3 \<and> 1 \<le> k
           \<and> k \<le> length (takeWhile is_digit s3) \<and> c' 3 = Some (take k s3)"
proof (cases s2)
  case Nil
  with assms show ?thesis by (simp add: run_fix_reference)
next
  case (Cons a t)
  show ?thesis
  proof (cases t)
    case Nil
    with assms \<open>s2 = a # t\<close> show ?thesis by (simp add: run_fix_reference)
  next
    case (Cons b s3)
    with assms \<open>s2 = a # t\<close> show ?thesis
      by (auto simp: run_fix_reference split: if_splits)
  qed
qed

lemma run_pattern_sound:
  assumes "(s', c') \<in> set (rx_run True COMMIT_FIX_PATTERN (s, c))"
  shows "\<exists>w n. s = w @ s' \<and> fix_phrase w n \<and> c' 3 = Some n"
proof -
  from assms obtain st1 st2 where 1: "st1 \<in> set (rx_run True fix_word (s, c))"
    and 2: "st2 \<in> set (rx_run True fix_ending st1)"
    and 3: "(s', c') \<in> set (rx_run True fix_reference st2)"
    unfolding COMMIT_FIX_PATTERN_def in_run_Seq by blast
  obtain s1 c1 where st1: "st1 = (s1, c1)" by (cases st1)
  obtain s2 c2 where st2: "st2 = (s2, c2)" by (cases st2)
  from 1 st1 obtain kw where kw: "kw \<in> set fix_keywords" "ci_prefix kw s" "s1 = drop (length kw) s"
    using in_run_word by blast
  from 2 st1 st2 obtain e where e: "e \<in> set fix_endings" "ci_prefix e s1" "s2 = drop (length e) s1"
    using in_run_ending by blast
  from 3 st2 obtain a b s3 k where r: "s2 = a # b # s3" "canonicalize True a = CHR '' ''"
    "canonicalize True b \<in> {CHR ''T'', CHR ''#''}" "s' = drop k s3" "1 \<le> k"
    "k \<le> length (takeWhile is_digit s3)" "c' 3 = Some (take k s3)"
    using in_run_reference[of s' c' s2 c2] by blast
  have "take k s3 \<noteq> []" using r(5,6) length_takeWhile_le[of is_digit s3] by auto
  moreover have "same_ignoring_case (take (length kw) s) kw" "same_ignoring_case (take (length e) s1) e"
    using kw(2) e(2) by (simp_all add: ci_prefix_def)
  moreover have "list_all is_digit (take k s3)" using r(6) by (rule take_digits)
  ultimately have "fix_phrase (take (length kw) s @ take (length e) s1 @ a # b # take k s3) (take k s3)"
    using kw(1) e(1) r(2,3) by (intro fix_phraseI[of kw e])
  moreover have "s = (take (length kw) s @ take (length e) s1 @ a # b # take k s3) @ s'"
  proof -
    have "s = take (length kw) s @ s1" using kw(3) by simp
    moreover have "s1 = take (length e) s1 @ s2" using e(3) by simp
    moreover have "s2 = a # b # take k s3 @ s'" using r(1,4) by simp
    ultimately show ?thesis by (metis append.assoc append_Cons)
  qed
  ultimately show ?thesis using r(7) by blast
qed

lemma rx_exec_from_first:
  assumes "\<forall>j<i. rx_run ic r (drop j t, Map.empty) = []" and "i \<le> length t"
    and "rx_run ic r (drop i t, Map.empty) = (s', caps) # rest"
  shows "rx_exec_from ic r k t =
           Some \<lparr>m_index = k + i, m_text = take (length t - i - length s') (drop i t),
                 m_captures = map caps [1 ..< Suc (rx_groups r)]\<rparr>"
  using assms
proof (induction i arbitrary: t k)
  case 0
  then show ?case by (simp add: rx_exec_from.simps)
next
  case (Suc i)
  from Suc.prems(2) obtain x t' where t: "t = x # t'" by (cases t) auto
  from Suc.prems(1) have "rx_run ic r (drop 0 t, Map.empty) = []" by blast
  then have "rx_exec_from ic r k t = rx_exec_from ic r (Suc k) t'"
    using t by (simp add: rx_exec_from.simps[of ic r k])
  moreover have "\<forall>j<i. rx_run ic r (drop j t', Map.empty) = []"
    using Suc.prems(1) t by (metis Suc_less_eq drop_Suc_Cons)
  ultimately show ?case
    using Suc.IH[of t' "Suc k"] Suc.prems(2,3) t by simp
qed

lemma rx_exec_from_none:
  assumes "\<forall>j\<le>length t. rx_run ic r (drop j t, Map.empty) = []"
  shows "rx_exec_from ic r k t = None"
  using assms
proof (induction t arbitrary: k)
  case Nil
  then show ?case by (simp add: rx_exec_from.simps)
next
  case (Cons x t)
  from Cons.prems have "rx_run ic r (drop 0 (x # t), Map.empty) = []" by blast
  moreover have "\<forall>j\<le>length t. rx_run ic r (drop j t, Map.empty) = []"
    using Cons.prems by (metis Suc_le_mono drop_Suc_Cons length_Cons)
  ultimately show ?case using Cons.IH[of "Suc k"]
    by (simp add: rx_exec_from.simps[of ic r k])
qed

subsection \<open>The replacement text\<close>

lemma canon_space: "canonicalize True a = CHR '' '' \<longleftrightarrow> a = CHR '' ''"
proof
  assume a: "canonicalize True a = CHR '' ''"
  have "CHR '' '' \<notin> set ''ABCDEFGHIJKLMNOPQRSTUVWXYZ''" by simp
  with a canon_cases[of a] show "a = CHR '' ''" by metis
next
  assume "a = CHR '' ''"
  then show "canonicalize True a = CHR '' ''" by simp
qed

lemma takeWhile_digits:
  assumes "list_all P n" and "post = [] \<or> \<not> P (hd post)"
  shows "takeWhile P (n @ post) = n"
proof -
  have "takeWhile P post = []" using assms(2) by (cases post) auto
  with assms(1) show ?thesis by (simp add: takeWhile_append2 list_all_iff)
qed

lemma pattern_groups:
  "map caps [1 ..< Suc (rx_groups COMMIT_FIX_PATTERN)] = [caps 1, caps 2, caps 3]"
proof -
  have "rx_groups COMMIT_FIX_PATTERN = 3"
    by (simp add: COMMIT_FIX_PATTERN_def fix_word_def fix_ending_def fix_reference_def)
  moreover have "[1 ..< Suc 3] = [1, 2, 3::nat]" by (simp add: upt_rec)
  ultimately show ?thesis by simp
qed

lemma get_substitution_plain:
  "CHR ''$'' \<notin> set xs \<Longrightarrow>
   get_substitution m str p caps (xs @ ys) = xs @ get_substitution m str p caps ys"
proof (induction xs)
  case Nil
  then show ?case by simp
next
  case (Cons x xs)
  show ?case
  proof (cases "xs @ ys")
    case Nil
    then show ?thesis by simp
  next
    case (Cons d rest)
    from Cons.prems have "x \<noteq> CHR ''$''" by auto
    then have "get_substitution m str p caps (x # d # rest) = x # get_substitution m str p caps (d # rest)"
      by simp
    with Cons Cons.IH Cons.prems show ?thesis by simp
  qed
qed

lemma get_substitution_capture3:
  "\<not> is_digit e \<Longrightarrow>
   get_substitution m str p [c1, c2, Some n] (CHR ''$'' # CHR ''3'' # e # rest) =
     n @ get_substitution m str p [c1, c2, Some n] (e # rest)"
  by (simp add: is_digit_def digit_chars_def digit_value_def capture_text_def)

lemma get_substitution_template:
  assumes "CHR ''$'' \<notin> set (baseIssueUrl opts)"
  shows "get_substitution m str p [c1, c2, Some n] (fix_template opts) =
           ''Closes [#'' @ n @ '']('' @ baseIssueUrl opts @ n @ '')''"
proof -
  have 1: "fix_template opts =
      ''Closes [#'' @ (CHR ''$'' # CHR ''3'' # CHR '']'' # (CHR ''('' # baseIssueUrl opts) @ ''$3)'')"
    by (simp add: fix_template_def)
  have 2: "get_substitution m str p [c1, c2, Some n] (CHR '']'' # (CHR ''('' # baseIssueUrl opts) @ ''$3)'')
       = CHR '']'' # (CHR ''('' # baseIssueUrl opts) @ get_substitution m str p [c1, c2, Some n] ''$3)''"
    using get_substitution_plain[of "CHR '']'' # CHR ''('' # baseIssueUrl opts" m str p _ "''$3)''"] assms
    by simp
  have 3: "get_substitution m str p [c1, c2, Some n] ''$3)'' = n @ '')''"
    by (simp add: is_digit_def digit_chars_def digit_value_def capture_text_def)
  have 4: "CHR ''$'' \<notin> set ''Closes [#''" by simp
  have 5: "\<not> is_digit CHR '']''" by (simp add: is_digit_def digit_chars_def)
  show ?thesis
    unfolding 1 get_substitution_plain[OF 4] get_substitution_capture3[OF 5] 2 3 by simp
qed

subsection \<open>Matching and rewriting a title\<close>

lemma rx_exec_from_None_iff:
  "rx_exec_from ic r k t = None \<longleftrightarrow> (\<forall>j\<le>length t. rx_run ic r (drop j t, Map.empty) = [])"
proof (induction t arbitrary: k)
  case Nil
  show ?case by (simp add: rx_exec_from.simps split: list.splits)
next
  case (Cons x t)
  have "(\<forall>j\<le>length (x # t). rx_run ic r (drop j (x # t), Map.empty) = []) \<longleftrightarrow>
        rx_run ic r (x # t, Map.empty) = [] \<and> (\<forall>j\<le>length t. rx_run ic r (drop j t, Map.empty) = [])"
    (is "?L \<longleftrightarrow> ?A \<and> ?B")
  proof
    assume l: ?L
    then have "rx_run ic r (drop 0 (x # t), Map.empty) = []" by blast
    moreover have ?B using l by (metis Suc_le_mono drop_Suc_Cons length_Cons)
    ultimately show "?A \<and> ?B" by simp
  next
    assume ab: "?A \<and> ?B"
    show ?L
    proof (intro allI impI)
      fix j assume "j \<le> length (x # t)"
      then show "rx_run ic r (drop j (x # t), Map.empty) = []"
        using ab by (cases j) auto
    qed
  qed
  then show ?case using Cons.IH[of "Suc k"]
    by (simp add: rx_exec_from.simps[of ic r k] split: list.splits)
qed

lemma run_phrase_first:
  assumes "fix_phrase w n" and "post = [] \<or> \<not> is_digit (hd post)"
  shows "\<exists>caps rest. rx_run True COMMIT_FIX_PATTERN (w @ post, c) = (post, caps) # rest
           \<and> caps 3 = Some n"
proof -
  from assms(1) obtain kw e wk we a b where p: "kw \<in> set fix_keywords" "e \<in> set fix_endings"
    "same_ignoring_case wk kw" "same_ignoring_case we e"
    "canonicalize True a = CHR '' ''" "canonicalize True b \<in> {CHR ''T'', CHR ''#''}"
    "w = wk @ we @ a # b # n" "n \<noteq> []" "list_all is_digit n"
    by (rule fix_phraseE)
  from p(5) have a: "a = CHR '' ''" by (simp add: canon_space)
  have t: "takeWhile is_digit (n @ post) = n" using p(9) assms(2) by (rule takeWhile_digits)
  have w: "w @ post = wk @ we @ CHR '' '' # b # (n @ post)" using p(7) a by simp
  from p(8) have u: "rev [1 ..< Suc (length n)] = length n # rev [1 ..< length n]"
    by (cases n) simp_all
  show ?thesis
    unfolding w run_pattern_phrase[OF p(1,2,3,4,6)] t u by simp
qed

lemma run_phrase_nonempty:
  assumes "fix_phrase w n"
  shows "rx_run True COMMIT_FIX_PATTERN (w @ post, c) \<noteq> []"
proof -
  from assms obtain kw e wk we a b where p: "kw \<in> set fix_keywords" "e \<in> set fix_endings"
    "same_ignoring_case wk kw" "same_ignoring_case we e"
    "canonicalize True a = CHR '' ''" "canonicalize True b \<in> {CHR ''T'', CHR ''#''}"
    "w = wk @ we @ a # b # n" "n \<noteq> []" "list_all is_digit n"
    by (rule fix_phraseE)
  from p(5) have a: "a = CHR '' ''" by (simp add: canon_space)
  have w: "w @ post = wk @ we @ CHR '' '' # b # (n @ post)" using p(7) a by simp
  have "takeWhile is_digit (n @ post) = n @ takeWhile is_digit post"
    using p(9) by (simp add: takeWhile_append2 list_all_iff)
  with p(8) have "Suc 0 \<le> length (takeWhile is_digit (n @ post))"
    by (cases n) simp_all
  then show ?thesis
    unfolding w run_pattern_phrase[OF p(1,2,3,4,6)] by simp
qed

lemma exec_phrase:
  assumes "fix_phrase w n" and "post = [] \<or> \<not> is_digit (hd post)"
    and "\<forall>pre' w' n' post'. pre @ w @ post = pre' @ w' @ post' \<and> fix_phrase w' n'
           \<longrightarrow> length pre \<le> length pre'"
  shows "\<exists>c1 c2. rx_exec True COMMIT_FIX_PATTERN (pre @ w @ post) =
           Some \<lparr>m_index = length pre, m_text = w, m_captures = [c1, c2, Some n]\<rparr>"
proof -
  let ?t = "pre @ w @ post"
  have before: "\<forall>j<length pre. rx_run True COMMIT_FIX_PATTERN (drop j ?t, Map.empty) = []"
  proof (intro allI impI, rule ccontr)
    fix j assume j: "j < length pre"
    assume "rx_run True COMMIT_FIX_PATTERN (drop j ?t, Map.empty) \<noteq> []"
    then obtain s' c' where "(s', c') \<in> set (rx_run True COMMIT_FIX_PATTERN (drop j ?t, Map.empty))"
      by (metis list.set_intros(1) neq_Nil_conv surj_pair)
    then obtain w' n' where "drop j ?t = w' @ s'" "fix_phrase w' n'"
      using run_pattern_sound by blast
    then have "?t = take j ?t @ w' @ s' \<and> fix_phrase w' n'"
      by (metis append_take_drop_id)
    with assms(3) have "length pre \<le> length (take j ?t)" by blast
    with j show False by simp
  qed
  from run_phrase_first[OF assms(1,2)] obtain caps rest where
    r: "rx_run True COMMIT_FIX_PATTERN (w @ post, Map.empty) = (post, caps) # rest" "caps 3 = Some n"
    by blast
  have "rx_exec_from True COMMIT_FIX_PATTERN 0 ?t =
          Some \<lparr>m_index = 0 + length pre,
                m_text = take (length ?t - length pre - length post) (drop (length pre) ?t),
                m_captures = map caps [1 ..< Suc (rx_groups COMMIT_FIX_PATTERN)]\<rparr>"
    using before r(1) by (intro rx_exec_from_first) simp_all
  then have "rx_exec_from True COMMIT_FIX_PATTERN 0 ?t =
          Some \<lparr>m_index = 0 + length pre,
                m_text = take (length ?t - length pre - length post) (drop (length pre) ?t),
                m_captures = [caps 1, caps 2, caps 3]\<rparr>"
    unfolding pattern_groups .
  then show ?thesis
    using r(2) by (simp add: rx_exec_def)
qed

lemma rewrite_title_phrase:
  assumes "fix_phrase w n" and "post = [] \<or> \<not> is_digit (hd post)"
    and "\<forall>pre' w' n' post'. pre @ w @ post = pre' @ w' @ post' \<and> fix_phrase w' n'
           \<longrightarrow> length pre \<le> length pre'"
    and "CHR ''$'' \<notin> set (baseIssueUrl opts)"
  shows "title_matches (Some (pre @ w @ post))"
    and "rewrite_title opts (Some (pre @ w @ post)) =
           Some (pre @ ''Closes [#'' @ n @ '']('' @ baseIssueUrl opts @ n @ '')'' @ post)"
proof -
  from exec_phrase[OF assms(1,2,3)] obtain c1 c2 where
    e: "rx_exec True COMMIT_FIX_PATTERN (pre @ w @ post) =
           Some \<lparr>m_index = length pre, m_text = w, m_captures = [c1, c2, Some n]\<rparr>"
    by blast
  from assms(1) have "w \<noteq> []" by (elim fix_phraseE) simp
  then show m: "title_matches (Some (pre @ w @ post))"
    using e by (simp add: title_matches_def truthy_string_def js_match_def COMMIT_FIX_REGEX_def)
  show "rewrite_title opts (Some (pre @ w @ post)) =
           Some (pre @ ''Closes [#'' @ n @ '']('' @ baseIssueUrl opts @ n @ '')'' @ post)"
    using m e get_substitution_template[OF assms(4)]
    by (simp add: rewrite_title_def js_replace_def COMMIT_FIX_REGEX_def)
qed

lemma title_matches_iff:
  "title_matches (Some t) \<longleftrightarrow> (\<exists>pre w n post. t = pre @ w @ post \<and> fix_phrase w n)"
proof
  assume "title_matches (Some t)"
  then have "rx_exec_from True COMMIT_FIX_PATTERN 0 t \<noteq> None"
    by (simp add: title_matches_def js_match_def COMMIT_FIX_REGEX_def rx_exec_def)
  then obtain j where "rx_run True COMMIT_FIX_PATTERN (drop j t, Map.empty) \<noteq> []"
    unfolding rx_exec_from_None_iff by blast
  then obtain s' c' where "(s', c') \<in> set (rx_run True COMMIT_FIX_PATTERN (drop j t, Map.empty))"
    by (metis list.set_intros(1) neq_Nil_conv surj_pair)
  then obtain w n where "drop j t = w @ s'" "fix_phrase w n"
    using run_pattern_sound by blast
  then have "t = take j t @ w @ s' \<and> fix_phrase w n"
    by (metis append_take_drop_id)
  then show "\<exists>pre w n post. t = pre @ w @ post \<and> fix_phrase w n" by blast
next
  assume "\<exists>pre w n post. t = pre @ w @ post \<and> fix_phrase w n"
  then obtain pre w n post where t: "t = pre @ w @ post" and p: "fix_phrase w n" by blast
  have "rx_run True COMMIT_FIX_PATTERN (drop (length pre) t, Map.empty) \<noteq> []"
    using run_phrase_nonempty[OF p] t by simp
  moreover have "length pre \<le> length t" using t by simp
  ultimately have "rx_exec_from True COMMIT_FIX_PATTERN 0 t \<noteq> None"
    unfolding rx_exec_from_None_iff by blast
  moreover from p have "w \<noteq> []" by (elim fix_phraseE) simp
  ultimately show "title_matches (Some t)"
    using t by (simp add: title_matches_def truthy_string_def js_match_def COMMIT_FIX_REGEX_def rx_exec_def)
qed

subsection \<open>What rendering does to the store\<close>

lemma renderContribution_store:
  "githubIssue c = Some r \<Longrightarrow> fst (renderContribution opts h c) = h(r := rewrite_issue opts (h r))"
  by (auto simp: renderContribution_def Let_def rewrite_issue_def rewrite_title_def title_matches_def)

lemma renderContribution_text:
  "githubIssue c = Some r \<Longrightarrow>
   snd (renderContribution opts h c) =
     Some (pr_prefix (h r) @ template_string (rewrite_title opts (title (h r))) @ ''. ([@''
             @ login (user (h r)) @ '']('' @ html_url (user (h r)) @ ''))'')"
  by (auto simp: renderContribution_def Let_def rewrite_title_def title_matches_def pr_prefix_def)

lemma renderContribution_None:
  "githubIssue c = None \<Longrightarrow> renderContribution opts h c = (h, None)"
  by (simp add: renderContribution_def)

lemma issue_refs_iff: "r \<in> issue_refs cs \<longleftrightarrow> (\<exists>c\<in>set cs. githubIssue c = Some r)"
  by (force simp: issue_refs_def List.map_filter_def)

lemma issue_refs_mono: "set cs \<subseteq> set cs' \<Longrightarrow> issue_refs cs \<subseteq> issue_refs cs'"
  unfolding subset_iff issue_refs_iff by blast








lemma push_commit_set:
  "(k', g') \<in> set (push_commit k c g) \<Longrightarrow> set g' \<subseteq> insert c (\<Union>(set ` snd ` set g))"
  by (induction k c g rule: push_commit.induct) (auto split: if_splits)

lemma commitsByPackage_subset:
  "(k, g) \<in> set (commitsByPackage cs) \<Longrightarrow> set g \<subseteq> set cs"
proof -
  have "\<And>acc. (k, g) \<in> set (foldl (\<lambda>g commit. push_commit (renderPackageNames (changedPackages commit)) commit g) acc cs)
        \<Longrightarrow> set g \<subseteq> set cs \<union> \<Union>(set ` snd ` set acc)"
  proof (induction cs)
    case Nil
    then show ?case by force
  next
    case (Cons c cs)
    from Cons.IH[OF Cons.prems[simplified]] show ?case
      using push_commit_set by fastforce
  qed
  from this[of "[]"] show "(k, g) \<in> set (commitsByPackage cs) \<Longrightarrow> set g \<subseteq> set cs"
    by (simp add: commitsByPackage_def)
qed



lemma groupByCategory_subset:
  "cat \<in> set (groupByCategory opts cs) \<Longrightarrow> set (category_commits cat) \<subseteq> set cs"
  by (auto simp: groupByCategory_def)



subsection \<open>Rendering when one rewrite settles every title\<close>

lemma rewrite_title_idem:
  "\<not> title_matches (rewrite_title opts t) \<Longrightarrow>
   rewrite_title opts (rewrite_title opts t) = rewrite_title opts t"
  by (simp add: rewrite_title_def)

lemma settle_empty: "settle opts {} h = h"
  by (simp add: settle_def)

lemma settle_settled:
  assumes "settled_once opts R h"
  shows "settled_once opts R (settle opts V h)"
  unfolding settled_once_def
proof
  fix r assume "r \<in> R"
  with assms have n: "\<not> title_matches (rewrite_title opts (title (h r)))"
    by (simp add: settled_once_def)
  then show "\<not> title_matches (rewrite_title opts (title (settle opts V h r)))"
    by (simp add: settle_def rewrite_issue_def rewrite_title_idem)
qed

lemma settle_settle:
  assumes "settled_once opts R h" and "V \<subseteq> R"
  shows "settle opts W (settle opts V h) = settle opts (V \<union> W) h"
proof
  fix r
  show "settle opts W (settle opts V h) r = settle opts (V \<union> W) h r"
  proof (cases "r \<in> V \<and> r \<in> W")
    case True
    with assms have "\<not> title_matches (rewrite_title opts (title (h r)))"
      by (auto simp: settled_once_def)
    with True show ?thesis
      by (simp add: settle_def rewrite_issue_def rewrite_title_idem)
  next
    case False
    then show ?thesis by (auto simp: settle_def)
  qed
qed

lemma settle_absorb:
  assumes "settled_once opts R h" and "V \<subseteq> R"
  shows "settle opts R (settle opts V h) = settle opts R h"
    and "settle opts V (settle opts R h) = settle opts R h"
    and "settle opts V (settle opts V h) = settle opts V h"
proof -
  have "V \<union> R = R" "R \<union> V = R" using assms(2) by auto
  then show "settle opts R (settle opts V h) = settle opts R h"
    and "settle opts V (settle opts R h) = settle opts R h"
    using settle_settle[OF assms, of R] settle_settle[OF assms(1) subset_refl, of V] by simp_all
  show "settle opts V (settle opts V h) = settle opts V h"
    using settle_settle[OF assms, of V] by simp
qed

lemma pr_prefix_rewrite: "pr_prefix (rewrite_issue opts i) = pr_prefix i"
  by (simp add: pr_prefix_def rewrite_issue_def split: option.splits)

lemma renderContribution_settle:
  assumes "settled_once opts R h" and "issue_refs [c] \<subseteq> R"
  shows "fst (renderContribution opts h c) = settle opts (issue_refs [c]) h
       \<and> snd (renderContribution opts h c) = snd (renderContribution opts (settle opts R h) c)"
proof (cases "githubIssue c")
  case None
  then have "issue_refs [c] = {}" by (auto simp: issue_refs_iff)
  with None show ?thesis by (simp add: renderContribution_None settle_empty)
next
  case (Some r)
  then have i: "issue_refs [c] = {r}" by (auto simp: issue_refs_iff)
  with assms have r: "r \<in> R" "\<not> title_matches (rewrite_title opts (title (h r)))"
    by (auto simp: settled_once_def)
  have "h(r := rewrite_issue opts (h r)) = settle opts {r} h"
    by (rule ext) (simp add: settle_def)
  moreover have "settle opts R h r = rewrite_issue opts (h r)"
    using r(1) by (simp add: settle_def)
  ultimately show ?thesis
    using r(2)
    by (simp add: renderContribution_store[OF Some] renderContribution_text[OF Some] i
        pr_prefix_rewrite rewrite_title_idem)
      (simp add: rewrite_issue_def rewrite_title_idem)
qed

lemma map_store_settle:
  assumes step: "\<And>x h. x \<in> set xs \<Longrightarrow> settled_once opts R h \<Longrightarrow>
            fst (f h x) = settle opts (V x) h \<and> snd (f h x) = snd (f (settle opts R h) x)"
    and sub: "\<And>x. x \<in> set xs \<Longrightarrow> V x \<subseteq> R"
    and st: "settled_once opts R h"
  shows "fst (map_store f h xs) = settle opts (\<Union>x\<in>set xs. V x) h
       \<and> snd (map_store f h xs) = snd (map_store f (settle opts R h) xs)"
  using assms
proof (induction xs arbitrary: h)
  case Nil
  then show ?case by (simp add: settle_empty)
next
  case (Cons x xs)
  let ?h1 = "settle opts (V x) h"
  have vx: "V x \<subseteq> R" using Cons.prems(2) by simp
  have s1: "fst (f h x) = ?h1" "snd (f h x) = snd (f (settle opts R h) x)"
    using Cons.prems(1)[of x h] Cons.prems(3) by simp_all
  have st1: "settled_once opts R ?h1" using Cons.prems(3) by (rule settle_settled)
  have ih: "fst (map_store f ?h1 xs) = settle opts (\<Union>x\<in>set xs. V x) ?h1"
     "snd (map_store f ?h1 xs) = snd (map_store f (settle opts R ?h1) xs)"
    using Cons.IH[of ?h1] Cons.prems(1,2) st1 by simp_all
  have stR: "settled_once opts R (settle opts R h)" using Cons.prems(3) by (rule settle_settled)
  have s2: "fst (f (settle opts R h) x) = settle opts R h"
    using Cons.prems(1)[of x "settle opts R h"] stR settle_absorb(2)[OF Cons.prems(3) vx] by simp
  have a: "settle opts (\<Union>x\<in>set xs. V x) ?h1 = settle opts (\<Union>x\<in>set (x # xs). V x) h"
    using settle_settle[OF Cons.prems(3) vx] by simp
  have b: "settle opts R ?h1 = settle opts R h"
    using settle_absorb(1)[OF Cons.prems(3) vx] .
  have l: "map_store f h (x # xs) = (fst (map_store f ?h1 xs), snd (f h x) # snd (map_store f ?h1 xs))"
    using s1(1) by (simp add: case_prod_beta)
  have r: "map_store f (settle opts R h) (x # xs) =
       (fst (map_store f (settle opts R h) xs),
        snd (f (settle opts R h) x) # snd (map_store f (settle opts R h) xs))"
    using s2 by (simp add: case_prod_beta)
  show ?case unfolding l r using ih a b s1(2) by simp
qed

lemma foldl_settle:
  assumes step: "\<And>x h md. x \<in> set xs \<Longrightarrow> settled_once opts R h \<Longrightarrow>
            fst (g (h, md) x) = settle opts (V x) h
          \<and> snd (g (h, md) x) = snd (g (settle opts R h, md) x)"
    and sub: "\<And>x. x \<in> set xs \<Longrightarrow> V x \<subseteq> R"
    and st: "settled_once opts R h"
  shows "fst (foldl g (h, md) xs) = settle opts (\<Union>x\<in>set xs. V x) h
       \<and> snd (foldl g (h, md) xs) = snd (foldl g (settle opts R h, md) xs)"
  using assms
proof (induction xs arbitrary: h md)
  case Nil
  then show ?case by (simp add: settle_empty)
next
  case (Cons x xs)
  let ?h1 = "settle opts (V x) h"
  define md1 where "md1 = snd (g (h, md) x)"
  have vx: "V x \<subseteq> R" using Cons.prems(2) by simp
  have s1: "fst (g (h, md) x) = ?h1" "md1 = snd (g (settle opts R h, md) x)"
    using Cons.prems(1)[of x h md] Cons.prems(3) by (simp_all add: md1_def)
  have st1: "settled_once opts R ?h1" using Cons.prems(3) by (rule settle_settled)
  have ih: "fst (foldl g (?h1, md1) xs) = settle opts (\<Union>x\<in>set xs. V x) ?h1"
     "snd (foldl g (?h1, md1) xs) = snd (foldl g (settle opts R ?h1, md1) xs)"
    using Cons.IH[of ?h1 md1] Cons.prems(1,2) st1 by simp_all
  have stR: "settled_once opts R (settle opts R h)" using Cons.prems(3) by (rule settle_settled)
  have s2: "fst (g (settle opts R h, md) x) = settle opts R h"
    using Cons.prems(1)[of x "settle opts R h" md] stR settle_absorb(2)[OF Cons.prems(3) vx] by simp
  have a: "settle opts (\<Union>x\<in>set xs. V x) ?h1 = settle opts (\<Union>x\<in>set (x # xs). V x) h"
    using settle_settle[OF Cons.prems(3) vx] by simp
  have b: "settle opts R ?h1 = settle opts R h"
    using settle_absorb(1)[OF Cons.prems(3) vx] .
  have l: "g (h, md) x = (?h1, md1)" using s1(1) by (simp add: prod_eq_iff md1_def)
  have r: "g (settle opts R h, md) x = (settle opts R h, md1)"
    using s2 s1(2) by (simp add: prod_eq_iff)
  have "fst (foldl g (h, md) (x # xs)) = fst (foldl g (?h1, md1) xs)"
       "snd (foldl g (h, md) (x # xs)) = snd (foldl g (?h1, md1) xs)"
    by (simp_all only: foldl_Cons l)
  moreover have "snd (foldl g (settle opts R h, md) (x # xs)) = snd (foldl g (settle opts R h, md1) xs)"
    by (simp only: foldl_Cons r)
  ultimately show ?case using ih a b by simp
qed

lemma issue_refs_Union: "(\<Union>x\<in>set cs. issue_refs [x]) = issue_refs cs"
  by (auto simp: issue_refs_iff)

lemma renderContributionList_settle:
  assumes "settled_once opts R h" and "issue_refs cs \<subseteq> R"
  shows "fst (renderContributionList opts h cs p) = settle opts (issue_refs cs) h
       \<and> snd (renderContributionList opts h cs p)
           = snd (renderContributionList opts (settle opts R h) cs p)"
proof -
  have "fst (map_store (renderContribution opts) h cs) = settle opts (\<Union>x\<in>set cs. issue_refs [x]) h
      \<and> snd (map_store (renderContribution opts) h cs)
          = snd (map_store (renderContribution opts) (settle opts R h) cs)"
  proof (rule map_store_settle[where V = "\<lambda>x. issue_refs [x]"])
    fix x assume "x \<in> set cs"
    then show "issue_refs [x] \<subseteq> R" using assms(2) issue_refs_mono[of "[x]" cs] by auto
    fix h assume "settled_once opts R h"
    then show "fst (renderContribution opts h x) = settle opts (issue_refs [x]) h \<and>
           snd (renderContribution opts h x) = snd (renderContribution opts (settle opts R h) x)"
      using \<open>issue_refs [x] \<subseteq> R\<close> by (rule renderContribution_settle)
  qed (rule assms(1))
  then show ?thesis
    by (simp add: renderContributionList_def case_prod_beta issue_refs_Union)
qed

lemma renderContributionsByPackage_settle:
  assumes "settled_once opts R h" and "issue_refs cs \<subseteq> R"
  shows "fst (renderContributionsByPackage opts h cs)
           = settle opts (\<Union>x\<in>set (commitsByPackage cs). issue_refs (snd x)) h
       \<and> snd (renderContributionsByPackage opts h cs)
           = snd (renderContributionsByPackage opts (settle opts R h) cs)"
proof -
  let ?f = "\<lambda>h1 (packageName, group).
                case renderContributionList opts h1 group ''  '' of
                  (h2, l) \<Rightarrow> (h2, ''* '' @ packageName @ ''\<newline>'' @ l)"
  have "fst (map_store ?f h (commitsByPackage cs))
          = settle opts (\<Union>x\<in>set (commitsByPackage cs). issue_refs (snd x)) h
      \<and> snd (map_store ?f h (commitsByPackage cs))
          = snd (map_store ?f (settle opts R h) (commitsByPackage cs))"
  proof (rule map_store_settle[where V = "\<lambda>x. issue_refs (snd x)"])
    fix x assume x: "x \<in> set (commitsByPackage cs)"
    then show sub: "issue_refs (snd x) \<subseteq> R"
      using commitsByPackage_subset[of "fst x" "snd x" cs] issue_refs_mono[of "snd x" cs] assms(2)
      by auto
    fix h assume "settled_once opts R h"
    then show "fst (?f h x) = settle opts (issue_refs (snd x)) h \<and>
           snd (?f h x) = snd (?f (settle opts R h) x)"
      using renderContributionList_settle[OF _ sub, of opts h "''  ''"]
      by (simp add: case_prod_beta)
  qed (rule assms(1))
  then show ?thesis
    by (simp add: renderContributionsByPackage_def case_prod_beta)
qed

lemma render_category_settle:
  assumes "settled_once opts R h" and "issue_refs (category_commits cat) \<subseteq> R"
  shows "fst (render_category opts (h, md) cat) = settle opts (category_refs cat) h
       \<and> snd (render_category opts (h, md) cat)
           = snd (render_category opts (settle opts R h, md) cat)"
  using renderContributionsByPackage_settle[OF assms, of ]
    renderContributionList_settle[OF assms, of "[]"]
  by (simp add: render_category_def category_refs_def case_prod_beta)

lemma category_refs_subset:
  "category_refs cat \<subseteq> issue_refs (category_commits cat)"
proof (cases "hasPackages (category_commits cat)")
  case True
  have "\<And>x. x \<in> set (commitsByPackage (category_commits cat))
          \<Longrightarrow> issue_refs (snd x) \<subseteq> issue_refs (category_commits cat)"
    using commitsByPackage_subset issue_refs_mono by (metis prod.collapse)
  with True show ?thesis by (auto simp: category_refs_def)
next
  case False
  then show ?thesis by (simp add: category_refs_def)
qed

lemma renderRelease_settle:
  assumes "settled_once opts R h" and "issue_refs (commits rel) \<subseteq> R"
  shows "fst (renderRelease opts h rel) = settle opts (release_refs opts rel) h
       \<and> snd (renderRelease opts h rel) = snd (renderRelease opts (settle opts R h) rel)"
proof -
  let ?cats = "filter (\<lambda>category. length (category_commits category) > 0)
                 (groupByCategory opts (commits rel))"
  have sub: "\<And>x. x \<in> set ?cats \<Longrightarrow> issue_refs (category_commits x) \<subseteq> R"
    using groupByCategory_subset[of _ opts "commits rel"] issue_refs_mono assms(2)
    by (metis (no_types, lifting) filter_is_subset subset_trans subsetD)
  have f: "\<And>md. fst (foldl (render_category opts) (h, md) ?cats)
                = settle opts (\<Union>x\<in>set ?cats. category_refs x) h
     \<and> snd (foldl (render_category opts) (h, md) ?cats)
                = snd (foldl (render_category opts) (settle opts R h, md) ?cats)"
  proof (rule foldl_settle[where V = category_refs])
    fix x assume x: "x \<in> set ?cats"
    then show "category_refs x \<subseteq> R" using sub category_refs_subset by blast
    fix h md assume "settled_once opts R h"
    then show "fst (render_category opts (h, md) x) = settle opts (category_refs x) h \<and>
       snd (render_category opts (h, md) x) = snd (render_category opts (settle opts R h, md) x)"
      using sub[OF x] by (rule render_category_settle)
  qed (rule assms(1))
  show ?thesis
  proof (cases "?cats = []")
    case True
    then show ?thesis
      by (simp add: renderRelease_def Let_def release_refs_def settle_empty)
  next
    case False
    then show ?thesis
      using f by (simp add: renderRelease_def Let_def release_refs_def case_prod_beta
          split: option.splits)
  qed
qed

lemma release_refs_subset: "release_refs opts rel \<subseteq> issue_refs (commits rel)"
proof -
  have "\<And>x. x \<in> set (groupByCategory opts (commits rel))
          \<Longrightarrow> category_refs x \<subseteq> issue_refs (commits rel)"
    using category_refs_subset groupByCategory_subset issue_refs_mono
    by (meson subset_trans)
  then show ?thesis by (auto simp: release_refs_def)
qed

lemma string_of_nat_0: "string_of_nat 0 = ''0''"
  by (simp add: string_of_nat.simps digit_chars_def)

subsection \<open>Grouping by category\<close>

lemma carries_iff:
  "carries n c \<longleftrightarrow> (\<exists>cats. commit_categories c = Some cats \<and> n \<in> set cats)"
  by (simp add: carries_def split: option.splits)

lemma groupByCategory_drop:
  assumes "\<forall>n\<in>set (categories opts). \<not> carries n c"
  shows "groupByCategory opts (cs1 @ c # cs2) = groupByCategory opts (cs1 @ cs2)"
  using assms by (simp add: groupByCategory_def)

lemma groupByCategory_rendered:
  "groupByCategory opts (filter (\<lambda>c. \<exists>n\<in>set (categories opts). carries n c) cs)
     = groupByCategory opts cs"
proof -
  have "\<And>n. n \<in> set (categories opts) \<Longrightarrow>
          filter (carries n) (filter (\<lambda>c. \<exists>n\<in>set (categories opts). carries n c) cs)
            = filter (carries n) cs"
    by (induction cs) auto
  then show ?thesis by (simp add: groupByCategory_def)
qed

lemma renderRelease_rendered:
  "renderRelease opts h
      (rel\<lparr>commits := filter (\<lambda>c. \<exists>n\<in>set (categories opts). carries n c) (commits rel)\<rparr>)
     = renderRelease opts h rel"
  by (simp add: renderRelease_def groupByCategory_rendered Let_def)

subsection \<open>Joining and mapping\<close>

lemma map_store_append:
  "map_store f h (xs @ ys) =
     (case map_store f h xs of (h1, a) \<Rightarrow> (case map_store f h1 ys of (h2, b) \<Rightarrow> (h2, a @ b)))"
  by (induction xs arbitrary: h) (auto split: prod.splits)

lemma filter_Boolean_Some: "filter_Boolean (map Some xs) = filter (\<lambda>x. x \<noteq> []) xs"
  by (induction xs) (auto simp: filter_Boolean_def truthy_string_def)

lemma map_store_snd_nth:
  "snd (map_store f h xs) =
     map (\<lambda>i. snd (f (fst (map_store f h (take i xs))) (xs ! i))) [0 ..< length xs]"
proof (induction xs rule: rev_induct)
  case Nil
  then show ?case by simp
next
  case (snoc x xs)
  have "snd (map_store f h (xs @ [x])) =
          snd (map_store f h xs) @ [snd (f (fst (map_store f h xs)) x)]"
    by (simp add: map_store_append case_prod_beta)
  moreover have "map (\<lambda>i. snd (f (fst (map_store f h (take i (xs @ [x])))) ((xs @ [x]) ! i)))
                    [0 ..< length xs]
               = map (\<lambda>i. snd (f (fst (map_store f h (take i xs))) (xs ! i))) [0 ..< length xs]"
    by (rule map_cong) (simp_all add: nth_append)
  ultimately show ?case using snoc.IH by simp
qed

lemma foldl_render_category_prefix:
  "\<exists>s. snd (foldl (render_category opts) (h, md) cats) = md @ s"
proof (induction cats arbitrary: h md)
  case Nil
  then show ?case by simp
next
  case (Cons c cats)
  obtain h1 md1 where g: "render_category opts (h, md) c = (h1, md1)"
    by (cases "render_category opts (h, md) c")
  then obtain s1 where "md1 = md @ s1"
    by (auto simp: render_category_def case_prod_beta)
  moreover from Cons.IH[of h1 md1] obtain s where
    "snd (foldl (render_category opts) (h1, md1) cats) = md1 @ s" by blast
  ultimately show ?case using g by simp
qed

lemma renderRelease_heading:
  "snd (renderRelease opts h rel) = [] \<or> (\<exists>rest. snd (renderRelease opts h rel) = ''## '' @ rest)"
proof (cases "filter (\<lambda>category. length (category_commits category) > 0)
                (groupByCategory opts (commits rel)) = []")
  case True
  then show ?thesis by (simp add: renderRelease_def)
next
  case False
  define md where "md = ''## '' @ (if release_name rel = UNRELEASED_TAG then ''Unreleased''
                   else release_name rel) @ '' ('' @ date rel @ '')''"
  obtain s where s: "snd (foldl (render_category opts) (h, md)
        (filter (\<lambda>category. length (category_commits category) > 0)
                (groupByCategory opts (commits rel)))) = md @ s"
    using foldl_render_category_prefix by blast
  have "\<exists>t. snd (renderRelease opts h rel) = md @ t"
    using False s unfolding renderRelease_def Let_def md_def[symmetric]
    by (auto simp: case_prod_beta split: option.splits)
  then show ?thesis by (auto simp: md_def)
qed

lemma join_str_Cons: "join_str sep (x # xs) = x @ concat (map (\<lambda>y. sep @ y) xs)"
  by (induction xs arbitrary: x) simp_all

lemma foldl_render_category_text:
  "\<exists>bodies. length bodies = length cats
     \<and> snd (foldl (render_category opts) (h, md) cats) =
         md @ concat (map (\<lambda>(b, body). ''\<newline>\<newline>#### '' @ category_name b @ ''\<newline>'' @ body)
                        (zip cats bodies))"
proof (induction cats arbitrary: h md)
  case Nil
  then show ?case by simp
next
  case (Cons c cats)
  obtain h1 part where p: "(if hasPackages (category_commits c)
               then renderContributionsByPackage opts h (category_commits c)
               else renderContributionList opts h (category_commits c) []) = (h1, part)"
    by (cases "if hasPackages (category_commits c)
               then renderContributionsByPackage opts h (category_commits c)
               else renderContributionList opts h (category_commits c) []")
  then have g: "render_category opts (h, md) c
                 = (h1, md @ ''\<newline>\<newline>#### '' @ category_name c @ ''\<newline>'' @ part)"
    by (simp add: render_category_def)
  from Cons.IH[of h1 "md @ ''\<newline>\<newline>#### '' @ category_name c @ ''\<newline>'' @ part"]
  obtain bodies where b: "length bodies = length cats"
    "snd (foldl (render_category opts)
            (h1, md @ ''\<newline>\<newline>#### '' @ category_name c @ ''\<newline>'' @ part) cats) =
       (md @ ''\<newline>\<newline>#### '' @ category_name c @ ''\<newline>'' @ part)
         @ concat (map (\<lambda>(b, body). ''\<newline>\<newline>#### '' @ category_name b @ ''\<newline>'' @ body)
                        (zip cats bodies))"
    by blast
  have "length (part # bodies) = length (c # cats)" using b(1) by simp
  moreover have "snd (foldl (render_category opts) (h, md) (c # cats)) =
         md @ concat (map (\<lambda>(b, body). ''\<newline>\<newline>#### '' @ category_name b @ ''\<newline>'' @ body)
                        (zip (c # cats) (part # bodies)))"
    using b(2) by (simp only: foldl_Cons g) simp
  ultimately show ?case by blast
qed

lemma renderRelease_text:
  "\<exists>bodies. length bodies
        = length (filter (\<lambda>b. category_commits b \<noteq> []) (groupByCategory opts (commits rel)))
     \<and> snd (renderRelease opts h rel) =
         (if filter (\<lambda>b. category_commits b \<noteq> []) (groupByCategory opts (commits rel)) = []
          then []
          else ''## '' @ (if release_name rel = UNRELEASED_TAG then ''Unreleased''
                           else release_name rel) @ '' ('' @ date rel @ '')''
               @ concat (map (\<lambda>(b, body). ''\<newline>\<newline>#### '' @ category_name b @ ''\<newline>'' @ body)
                   (zip (filter (\<lambda>b. category_commits b \<noteq> [])
                           (groupByCategory opts (commits rel))) bodies))
               @ (case contributors rel of None \<Rightarrow> []
                  | Some cs \<Rightarrow> ''\<newline>\<newline>'' @ renderContributorList cs))"
proof -
  let ?B = "filter (\<lambda>b. category_commits b \<noteq> []) (groupByCategory opts (commits rel))"
  define md where "md = ''## '' @ (if release_name rel = UNRELEASED_TAG then ''Unreleased''
                           else release_name rel) @ '' ('' @ date rel @ '')''"
  from foldl_render_category_text[of ?B opts h md]
  obtain bodies where b: "length bodies = length ?B"
    "snd (foldl (render_category opts) (h, md) ?B) =
         md @ concat (map (\<lambda>(b, body). ''\<newline>\<newline>#### '' @ category_name b @ ''\<newline>'' @ body)
                        (zip ?B bodies))"
    by blast
  have r: "renderRelease opts h rel =
      (if ?B = [] then (h, [])
       else case foldl (render_category opts) (h, md) ?B of
              (h', markdown') \<Rightarrow>
                (case contributors rel of None \<Rightarrow> (h', markdown')
                 | Some cs \<Rightarrow> (h', markdown' @ ''\<newline>\<newline>'' @ renderContributorList cs)))"
    unfolding md_def by (simp add: renderRelease_def Let_def)
  have "snd (renderRelease opts h rel) =
         (if ?B = [] then []
          else md
               @ concat (map (\<lambda>(b, body). ''\<newline>\<newline>#### '' @ category_name b @ ''\<newline>'' @ body)
                   (zip ?B bodies))
               @ (case contributors rel of None \<Rightarrow> []
                  | Some cs \<Rightarrow> ''\<newline>\<newline>'' @ renderContributorList cs))"
    unfolding r using b(2) by (simp add: case_prod_beta split: option.splits)
  with b(1) show ?thesis unfolding md_def by (intro exI[of _ bodies]) simp
qed

subsection \<open>Grouping by package\<close>

lemma commitsByPackage_snoc:
  "commitsByPackage (cs @ [c]) = push_commit (package_label c) c (commitsByPackage cs)"
  by (simp add: commitsByPackage_def package_label_def)

lemma push_commit_keys:
  "map fst (push_commit k c g) = (if k \<in> set (map fst g) then map fst g else map fst g @ [k])"
  by (induction k c g rule: push_commit.induct) auto

lemma first_seen_snoc:
  "rev (remdups (rev (xs @ [k]))) =
     (if k \<in> set xs then rev (remdups (rev xs)) else rev (remdups (rev xs)) @ [k])"
  by simp

lemma commitsByPackage_keys:
  "map fst (commitsByPackage cs) = rev (remdups (rev (map package_label cs)))"
proof (induction cs rule: rev_induct)
  case Nil
  then show ?case by (simp add: commitsByPackage_def)
next
  case (snoc c cs)
  have "set (map fst (commitsByPackage cs)) = set (map package_label cs)"
    unfolding snoc.IH by simp
  then show ?case
    unfolding commitsByPackage_snoc push_commit_keys snoc.IH map_append
    by (simp del: set_map)
qed

lemma push_commit_groups:
  assumes "distinct (map fst g)" and "(k', g') \<in> set (push_commit k c g)"
  shows "(k' = k \<and> ((k, butlast g') \<in> set g \<and> g' = butlast g' @ [c] \<or> k \<notin> fst ` set g \<and> g' = [c]))
       \<or> (k' \<noteq> k \<and> (k', g') \<in> set g)"
  using assms
proof (induction k c g rule: push_commit.induct)
  case (1 k c)
  then show ?case by simp
next
  case (2 k c k0 cs g)
  show ?case
  proof (cases "k0 = k")
    case True
    with 2 show ?thesis by (auto simp: image_iff)
  next
    case False
    with 2 show ?thesis by (auto simp: image_iff)
  qed
qed

lemma commitsByPackage_groups:
  "(k, g) \<in> set (commitsByPackage cs) \<Longrightarrow> g = filter (\<lambda>c. package_label c = k) cs"
proof (induction cs arbitrary: k g rule: rev_induct)
  case Nil
  then show ?case by (simp add: commitsByPackage_def)
next
  case (snoc c cs)
  have d: "distinct (map fst (commitsByPackage cs))"
    unfolding commitsByPackage_keys by simp
  have keys: "fst ` set (commitsByPackage cs) = package_label ` set cs"
    using commitsByPackage_keys[of cs] by (metis list.set_map set_remdups set_rev)
  have pg: "(k = package_label c \<and> (k, butlast g) \<in> set (commitsByPackage cs) \<and> g = butlast g @ [c])
      \<or> (k = package_label c \<and> k \<notin> fst ` set (commitsByPackage cs) \<and> g = [c])
      \<or> (k \<noteq> package_label c \<and> (k, g) \<in> set (commitsByPackage cs))"
    using push_commit_groups[OF d snoc.prems[unfolded commitsByPackage_snoc]] by fastforce
  then show ?case
  proof (elim disjE conjE)
    assume old: "k = package_label c" "(k, butlast g) \<in> set (commitsByPackage cs)"
      "g = butlast g @ [c]"
    have "butlast g = filter (\<lambda>c. package_label c = k) cs" using old(2) by (rule snoc.IH)
    then have "butlast g @ [c] = filter (\<lambda>c. package_label c = k) (cs @ [c])"
      using old(1) by simp
    with old(3) show ?thesis by simp
  next
    assume new: "k = package_label c" "k \<notin> fst ` set (commitsByPackage cs)" "g = [c]"
    from new(2) keys have "\<forall>c'\<in>set cs. package_label c' \<noteq> k" by blast
    then have "filter (\<lambda>c. package_label c = k) cs = []" by (simp add: filter_empty_conv)
    with new(1,3) show ?thesis by simp
  next
    assume other: "k \<noteq> package_label c" "(k, g) \<in> set (commitsByPackage cs)"
    have "g = filter (\<lambda>c. package_label c = k) cs" using other(2) by (rule snoc.IH)
    with other(1) show ?thesis by simp
  qed
qed

lemma renderPackageNames_Cons:
  "renderPackageNames (p # ps) =
     [CHR 0x60] @ p @ [CHR 0x60] @ concat (map (\<lambda>q. '', '' @ [CHR 0x60] @ q @ [CHR 0x60]) ps)"
  by (simp add: renderPackageNames_def join_str_Cons comp_def)

subsection \<open>The line of a commit\<close>

lemma renderContributionList_drop:
  assumes "githubIssue c = None"
  shows "renderContributionList opts h (cs1 @ c # cs2) p = renderContributionList opts h (cs1 @ cs2) p"
proof -
  have 1: "\<And>h. renderContribution opts h c = (h, None)"
    using assms by (rule renderContribution_None)
  have "map_store (renderContribution opts) h (cs1 @ c # cs2) =
        (fst (map_store (renderContribution opts) h (cs1 @ cs2)),
         snd (map_store (renderContribution opts) h cs1) @ None
           # snd (map_store (renderContribution opts)
                    (fst (map_store (renderContribution opts) h cs1)) cs2))"
    by (simp add: map_store_append 1 case_prod_beta)
  moreover have "snd (map_store (renderContribution opts) h (cs1 @ cs2)) =
         snd (map_store (renderContribution opts) h cs1)
           @ snd (map_store (renderContribution opts)
                    (fst (map_store (renderContribution opts) h cs1)) cs2)"
    by (simp add: map_store_append case_prod_beta)
  ultimately show ?thesis
    by (simp add: renderContributionList_def case_prod_beta filter_Boolean_def truthy_string_def)
qed

lemma pr_prefix_iff:
  "pr_prefix issue =
     (if (\<exists>n. number issue = Some n \<and> n \<noteq> 0)
         \<and> (\<exists>pr u. pull_request issue = Some pr \<and> pr_html_url pr = Some u \<and> u \<noteq> [])
      then ''[#'' @ string_of_nat (the (number issue)) @ '']('' 
             @ the (pr_html_url (the (pull_request issue))) @ '') ''
      else [])"
  by (auto simp: pr_prefix_def truthy_number_def truthy_string_def split: option.splits)


subsection \<open>The leftmost phrase and the replacement in general\<close>

lemma fix_phrase_extend:
  assumes "fix_phrase w n" and "list_all is_digit d"
  shows "fix_phrase (w @ d) (n @ d)"
proof -
  from assms(1) obtain kw e wk we a b where p: "kw \<in> set fix_keywords" "e \<in> set fix_endings"
    "same_ignoring_case wk kw" "same_ignoring_case we e"
    "canonicalize True a = CHR '' ''" "canonicalize True b \<in> {CHR ''T'', CHR ''#''}"
    "w = wk @ we @ a # b # n" "n \<noteq> []" "list_all is_digit n"
    by (rule fix_phraseE)
  have "fix_phrase (wk @ we @ a # b # (n @ d)) (n @ d)"
    using p(1,2,3,4,5,6) p(8,9) assms(2) by (intro fix_phraseI[of kw e]) simp_all
  with p(7) show ?thesis by simp
qed

lemma leftmost_phrase_exists:
  assumes "t = pre0 @ w0 @ post0" and "fix_phrase w0 n0"
  shows "\<exists>pre w n post. t = pre @ w @ post \<and> fix_phrase w n
           \<and> (post = [] \<or> \<not> is_digit (hd post))
           \<and> (\<forall>pre' w' n' post'. t = pre' @ w' @ post' \<and> fix_phrase w' n'
                 \<longrightarrow> length pre \<le> length pre')"
proof -
  let ?P = "\<lambda>x :: string \<times> string \<times> string \<times> string.
              t = fst x @ fst (snd x) @ snd (snd (snd x)) \<and> fix_phrase (fst (snd x)) (fst (snd (snd x)))"
  have "?P (pre0, w0, n0, post0)" using assms by simp
  then have "\<exists>x. ?P x \<and> (\<forall>y. ?P y \<longrightarrow> length (fst x) \<le> length (fst y))"
    by (rule ex_has_least_nat)
  then obtain pre w n post where m: "t = pre @ w @ post" "fix_phrase w n"
    and least: "\<And>pre' w' n' post'. t = pre' @ w' @ post' \<Longrightarrow> fix_phrase w' n'
                   \<Longrightarrow> length pre \<le> length pre'"
    by (metis (mono_tags, lifting) fst_conv snd_conv prod.collapse)
  let ?d = "takeWhile is_digit post"
  have d: "list_all is_digit ?d" by (metis list_all_iff set_takeWhileD)
  have 1: "t = pre @ (w @ ?d) @ dropWhile is_digit post" using m(1) by simp
  have 2: "fix_phrase (w @ ?d) (n @ ?d)" using m(2) d by (rule fix_phrase_extend)
  have 3: "dropWhile is_digit post = [] \<or> \<not> is_digit (hd (dropWhile is_digit post))"
    by (metis hd_dropWhile)
  from 1 2 3 least show ?thesis by blast
qed

lemma get_substitution_template_general:
  "get_substitution m str p [c1, c2, Some n] (fix_template opts) =
     ''Closes [#'' @ n @ '']('' 
       @ get_substitution m str p [c1, c2, Some n] (baseIssueUrl opts @ ''$3)'')"
proof -
  let ?gs = "get_substitution m str p [c1, c2, Some n]"
  let ?tail = "baseIssueUrl opts @ ''$3)''"
  have 1: "fix_template opts = ''Closes [#'' @ (CHR ''$'' # CHR ''3'' # CHR '']'' # CHR ''('' # ?tail)"
    by (simp add: fix_template_def)
  have 4: "CHR ''$'' \<notin> set ''Closes [#''" by simp
  have 5: "\<not> is_digit CHR '']''" by (simp add: is_digit_def digit_chars_def)
  have 9: "CHR ''$'' \<notin> set [CHR '']'', CHR ''('']" by simp
  have "?gs (fix_template opts) = ''Closes [#'' @ ?gs (CHR ''$'' # CHR ''3'' # CHR '']'' # CHR ''('' # ?tail)"
    unfolding 1 by (rule get_substitution_plain[OF 4])
  also have "?gs (CHR ''$'' # CHR ''3'' # CHR '']'' # CHR ''('' # ?tail)
           = n @ ?gs (CHR '']'' # CHR ''('' # ?tail)"
    by (rule get_substitution_capture3[OF 5])
  also have "?gs (CHR '']'' # CHR ''('' # ?tail) = ?gs ([CHR '']'', CHR ''(''] @ ?tail)"
    by simp
  also have "\<dots> = [CHR '']'', CHR ''(''] @ ?gs ?tail"
    by (rule get_substitution_plain[OF 9])
  finally show ?thesis by simp
qed

lemma rewrite_title_phrase_general:
  assumes "fix_phrase w n" and "post = [] \<or> \<not> is_digit (hd post)"
    and "\<forall>pre' w' n' post'. pre @ w @ post = pre' @ w' @ post' \<and> fix_phrase w' n'
           \<longrightarrow> length pre \<le> length pre'"
  shows "\<exists>c1 c2. rewrite_title opts (Some (pre @ w @ post)) =
           Some (pre @ ''Closes [#'' @ n @ '']('' 
                  @ get_substitution w (pre @ w @ post) (length pre) [c1, c2, Some n]
                      (baseIssueUrl opts @ ''$3)'')
                  @ post)"
proof -
  from exec_phrase[OF assms(1,2,3)] obtain c1 c2 where
    e: "rx_exec True COMMIT_FIX_PATTERN (pre @ w @ post) =
           Some \<lparr>m_index = length pre, m_text = w, m_captures = [c1, c2, Some n]\<rparr>"
    by blast
  from assms(1) have "w \<noteq> []" by (elim fix_phraseE) simp
  then have m: "title_matches (Some (pre @ w @ post))"
    using e by (simp add: title_matches_def truthy_string_def js_match_def COMMIT_FIX_REGEX_def)
  have "rewrite_title opts (Some (pre @ w @ post)) =
           Some (pre @ ''Closes [#'' @ n @ '']('' 
                  @ get_substitution w (pre @ w @ post) (length pre) [c1, c2, Some n]
                      (baseIssueUrl opts @ ''$3)'')
                  @ post)"
    using m e get_substitution_template_general[of w "pre @ w @ post" "length pre" c1 c2 n opts]
    by (simp add: rewrite_title_def js_replace_def COMMIT_FIX_REGEX_def)
  then show ?thesis by blast
qed

lemma get_substitution_base_plain:
  assumes "CHR ''$'' \<notin> set base"
  shows "get_substitution m str p [c1, c2, Some n] (base @ ''$3)'') = base @ n @ '')''"
proof -
  have "get_substitution m str p [c1, c2, Some n] ''$3)'' = n @ '')''"
    by (simp add: is_digit_def digit_chars_def digit_value_def capture_text_def)
  then show ?thesis unfolding get_substitution_plain[OF assms] by simp
qed

lemma spec_words_are_phrases:
  assumes "v \<in> set [''fix'', ''fixes'', ''fixed'', ''close'', ''closes'', ''closed'',
                      ''resolve'', ''resolves'', ''resolved'']"
    and "m \<in> set ''#T''" and "n \<noteq> []" and "list_all is_digit n"
  shows "fix_phrase (v @ '' '' @ [m] @ n) n"
proof -
  have k: "''fix'' \<in> set fix_keywords" "''close'' \<in> set fix_keywords"
    "''resolve'' \<in> set fix_keywords"
    by (simp_all add: fix_keywords_def)
  have e: "[] \<in> set fix_endings" "''s'' \<in> set fix_endings" "''es'' \<in> set fix_endings"
    "''d'' \<in> set fix_endings" "''ed'' \<in> set fix_endings"
    by (simp_all add: fix_endings_def)
  have b: "canonicalize True m \<in> {CHR ''T'', CHR ''#''}" using assms(2) by auto
  have s: "canonicalize True CHR '' '' = CHR '' ''" by simp
  note I = fix_phraseI[OF _ _ sic_refl sic_refl s b assms(3,4)]
  from assms(1) have "v = ''fix'' \<or> v = ''fixes'' \<or> v = ''fixed'' \<or> v = ''close''
      \<or> v = ''closes'' \<or> v = ''closed'' \<or> v = ''resolve'' \<or> v = ''resolves''
      \<or> v = ''resolved''"
    by simp
  then show ?thesis
  proof (elim disjE)
    assume "v = ''fix''" with I[OF k(1) e(1)] show ?thesis by simp
  next
    assume "v = ''fixes''" with I[OF k(1) e(3)] show ?thesis by simp
  next
    assume "v = ''fixed''" with I[OF k(1) e(5)] show ?thesis by simp
  next
    assume "v = ''close''" with I[OF k(2) e(1)] show ?thesis by simp
  next
    assume "v = ''closes''" with I[OF k(2) e(2)] show ?thesis by simp
  next
    assume "v = ''closed''" with I[OF k(2) e(4)] show ?thesis by simp
  next
    assume "v = ''resolve''" with I[OF k(3) e(1)] show ?thesis by simp
  next
    assume "v = ''resolves''" with I[OF k(3) e(2)] show ?thesis by simp
  next
    assume "v = ''resolved''" with I[OF k(3) e(4)] show ?thesis by simp
  qed
qed

section \<open>The claims\<close>

subsection \<open>C1: the rewrite of the issue title\<close>

text \<open>
  C1 says that \<^verbatim>\<open>renderContribution\<close> rewrites every substring of the issue title that
  matches the pattern into \<^verbatim>\<open>Closes [#N](<baseIssueUrl>N)\<close>. The pattern has no
  \<^verbatim>\<open>g\<close> flag, so \<^verbatim>\<open>replace\<close> rewrites the first match only: of the two phrases of
  \<^verbatim>\<open>fix #1 fix #2\<close> the second stays, in the title and in the rendered line. And
  \<^verbatim>\<open>baseIssueUrl\<close> is pasted into the replacement string, where \<^verbatim>\<open>replace\<close> reads a
  dollar sign as the start of a replacement pattern: with the base
  \<^verbatim>\<open>https://example.com/$1/\<close> the link is \<^verbatim>\<open>https://example.com/fix/1\<close>, the
  \<^verbatim>\<open>$1\<close> replaced by the first capture.
\<close>

theorem fix_phrase_counterexample:
  "fix_phrase ''fix #1'' ''1'' \<and> fix_phrase ''fix #2'' ''2''
   \<and> title (fst (renderContribution example_options (example_store ''fix #1 fix #2'')
                (example_commit [''Bug''] None)) 0)
       = Some ''Closes [#1](https://example.com/issues/1) fix #2''
   \<and> snd (renderContribution example_options (example_store ''fix #1 fix #2'')
                (example_commit [''Bug''] None))
       = Some ''[#7](https://example.com/pull/7) Closes [#1](https://example.com/issues/1) fix #2. ([@alice](https://github.com/alice))''
   \<and> title (fst (renderContribution
                  \<lparr>categories = [''Bug''], baseIssueUrl = ''https://example.com/$1/''\<rparr>
                  (example_store ''fix #1'') (example_commit [''Bug''] None)) 0)
       = Some ''Closes [#1](https://example.com/fix/1)''"
  by code_simp

text \<open>
  C1, amended: for a commit with a linked issue, \<^verbatim>\<open>renderContribution\<close> rewrites the
  leftmost phrase of the title and no other. A phrase is fix, close or resolve, an ending
  s, es, d or ed or none, a space, \<^verbatim>\<open>#\<close> or \<^verbatim>\<open>T\<close>, and the digits N, letters in
  either case (\<open>fix_phrase\<close>); N is the whole run of digits. With the title
  \<open>pre @ w @ post\<close>, \<open>w\<close> the leftmost phrase and \<open>n\<close> its number, the new title is
  \<open>pre\<close>, then \<^verbatim>\<open>Closes [#N](\<close>, then what \<^verbatim>\<open>replace\<close> makes of
  \<^verbatim>\<open><baseIssueUrl>$3)\<close>, then \<open>post\<close>; when \<^verbatim>\<open>baseIssueUrl\<close> has no dollar sign
  this is \<^verbatim>\<open>Closes [#N](<baseIssueUrl>N)\<close>, and the rendered line is the pull request
  prefix, the new title and the author. Every title that contains a phrase has such a
  leftmost phrase, a title without a phrase (or no title) leaves the store as it is, and
  the rendered line always carries the title as the call leaves it. The nine words of the
  claim, followed by a space, \<^verbatim>\<open>#\<close> or \<^verbatim>\<open>T\<close> and digits, are phrases. In particular the
  title \<^verbatim>\<open>fixes #42\<close> with the base \<^verbatim>\<open>https://example.com/issues/\<close> renders
  \<^verbatim>\<open>Closes [#42](https://example.com/issues/42)\<close>.
\<close>

theorem leftmost_fix_phrase_rewritten:
  assumes "githubIssue c = Some r"
  shows "(title (h r) = Some (pre @ w @ post) \<and> fix_phrase w n
            \<and> (post = [] \<or> \<not> is_digit (hd post))
            \<and> (\<forall>pre' w' n' post'. pre @ w @ post = pre' @ w' @ post' \<and> fix_phrase w' n'
                  \<longrightarrow> length pre \<le> length pre')
          \<longrightarrow> (\<exists>c1 c2. title (fst (renderContribution opts h c) r)
                  = Some (pre @ ''Closes [#'' @ n @ '']('' 
                           @ get_substitution w (pre @ w @ post) (length pre) [c1, c2, Some n]
                               (baseIssueUrl opts @ ''$3)'')
                           @ post))
            \<and> (CHR ''$'' \<notin> set (baseIssueUrl opts) \<longrightarrow>
                 title (fst (renderContribution opts h c) r)
                   = Some (pre @ ''Closes [#'' @ n @ '']('' @ baseIssueUrl opts @ n @ '')'' @ post)
               \<and> snd (renderContribution opts h c)
                   = Some (pr_prefix (h r) @ pre @ ''Closes [#'' @ n @ '']('' @ baseIssueUrl opts @ n
                             @ '')'' @ post @ ''. ([@'' @ login (user (h r)) @ '']('' 
                             @ html_url (user (h r)) @ ''))'')))
       \<and> (title (h r) = Some (pre0 @ w0 @ post0) \<and> fix_phrase w0 n0
          \<longrightarrow> (\<exists>pre w n post. title (h r) = Some (pre @ w @ post) \<and> fix_phrase w n
                 \<and> (post = [] \<or> \<not> is_digit (hd post))
                 \<and> (\<forall>pre' w' n' post'. pre @ w @ post = pre' @ w' @ post' \<and> fix_phrase w' n'
                       \<longrightarrow> length pre \<le> length pre')))
       \<and> ((\<forall>t. title (h r) = Some t \<longrightarrow> (\<forall>pre w n post. t = pre @ w @ post \<longrightarrow> \<not> fix_phrase w n))
          \<longrightarrow> fst (renderContribution opts h c) = h)
       \<and> snd (renderContribution opts h c)
           = Some (pr_prefix (h r)
                    @ (case title (fst (renderContribution opts h c) r) of
                         None \<Rightarrow> ''undefined'' | Some t \<Rightarrow> t)
                    @ ''. ([@'' @ login (user (h r)) @ '']('' @ html_url (user (h r)) @ ''))'')
       \<and> (title (h r) = Some ''fixes #42'' \<and> baseIssueUrl opts = ''https://example.com/issues/''
          \<longrightarrow> snd (renderContribution opts h c)
                = Some (pr_prefix (h r) @ ''Closes [#42](https://example.com/issues/42)''
                          @ ''. ([@'' @ login (user (h r)) @ '']('' @ html_url (user (h r)) @ ''))''))
       \<and> (v \<in> set [''fix'', ''fixes'', ''fixed'', ''close'', ''closes'', ''closed'',
                      ''resolve'', ''resolves'', ''resolved'']
            \<and> m \<in> set ''#T'' \<and> n1 \<noteq> [] \<and> list_all is_digit n1
          \<longrightarrow> fix_phrase (v @ '' '' @ [m] @ n1) n1)"
proof -
  have tt: "title (fst (renderContribution opts h c) r) = rewrite_title opts (title (h r))"
    by (simp add: renderContribution_store[OF assms] rewrite_issue_def)
  have A: "title (h r) = Some (pre @ w @ post) \<and> fix_phrase w n
            \<and> (post = [] \<or> \<not> is_digit (hd post))
            \<and> (\<forall>pre' w' n' post'. pre @ w @ post = pre' @ w' @ post' \<and> fix_phrase w' n'
                  \<longrightarrow> length pre \<le> length pre')
          \<longrightarrow> (\<exists>c1 c2. title (fst (renderContribution opts h c) r)
                  = Some (pre @ ''Closes [#'' @ n @ '']('' 
                           @ get_substitution w (pre @ w @ post) (length pre) [c1, c2, Some n]
                               (baseIssueUrl opts @ ''$3)'')
                           @ post))
            \<and> (CHR ''$'' \<notin> set (baseIssueUrl opts) \<longrightarrow>
                 title (fst (renderContribution opts h c) r)
                   = Some (pre @ ''Closes [#'' @ n @ '']('' @ baseIssueUrl opts @ n @ '')'' @ post)
               \<and> snd (renderContribution opts h c)
                   = Some (pr_prefix (h r) @ pre @ ''Closes [#'' @ n @ '']('' @ baseIssueUrl opts @ n
                             @ '')'' @ post @ ''. ([@'' @ login (user (h r)) @ '']('' 
                             @ html_url (user (h r)) @ ''))''))"
  proof (intro impI conjI)
    assume a: "title (h r) = Some (pre @ w @ post) \<and> fix_phrase w n
            \<and> (post = [] \<or> \<not> is_digit (hd post))
            \<and> (\<forall>pre' w' n' post'. pre @ w @ post = pre' @ w' @ post' \<and> fix_phrase w' n'
                  \<longrightarrow> length pre \<le> length pre')"
    then show "\<exists>c1 c2. title (fst (renderContribution opts h c) r)
                  = Some (pre @ ''Closes [#'' @ n @ '']('' 
                           @ get_substitution w (pre @ w @ post) (length pre) [c1, c2, Some n]
                               (baseIssueUrl opts @ ''$3)'')
                           @ post)"
      unfolding tt using rewrite_title_phrase_general[of w n post pre opts] by simp
    assume d: "CHR ''$'' \<notin> set (baseIssueUrl opts)"
    from a d have rw: "rewrite_title opts (title (h r))
       = Some (pre @ ''Closes [#'' @ n @ '']('' @ baseIssueUrl opts @ n @ '')'' @ post)"
      using rewrite_title_phrase(2)[of w n post pre opts] by simp
    show "title (fst (renderContribution opts h c) r)
          = Some (pre @ ''Closes [#'' @ n @ '']('' @ baseIssueUrl opts @ n @ '')'' @ post)"
      using rw tt by simp
    show "snd (renderContribution opts h c)
          = Some (pr_prefix (h r) @ pre @ ''Closes [#'' @ n @ '']('' @ baseIssueUrl opts @ n
                    @ '')'' @ post @ ''. ([@'' @ login (user (h r)) @ '']('' 
                    @ html_url (user (h r)) @ ''))'')"
      using rw by (simp add: renderContribution_text[OF assms] template_string_def)
  qed
  have B: "title (h r) = Some (pre0 @ w0 @ post0) \<and> fix_phrase w0 n0
          \<longrightarrow> (\<exists>pre w n post. title (h r) = Some (pre @ w @ post) \<and> fix_phrase w n
                 \<and> (post = [] \<or> \<not> is_digit (hd post))
                 \<and> (\<forall>pre' w' n' post'. pre @ w @ post = pre' @ w' @ post' \<and> fix_phrase w' n'
                       \<longrightarrow> length pre \<le> length pre'))"
  proof
    assume b: "title (h r) = Some (pre0 @ w0 @ post0) \<and> fix_phrase w0 n0"
    from leftmost_phrase_exists[OF refl, of w0 n0 pre0 post0] b
    obtain pre w n post where "pre0 @ w0 @ post0 = pre @ w @ post" "fix_phrase w n"
      "post = [] \<or> \<not> is_digit (hd post)"
      "\<forall>pre' w' n' post'. pre0 @ w0 @ post0 = pre' @ w' @ post' \<and> fix_phrase w' n'
                 \<longrightarrow> length pre \<le> length pre'"
      by blast
    with b show "\<exists>pre w n post. title (h r) = Some (pre @ w @ post) \<and> fix_phrase w n
                 \<and> (post = [] \<or> \<not> is_digit (hd post))
                 \<and> (\<forall>pre' w' n' post'. pre @ w @ post = pre' @ w' @ post' \<and> fix_phrase w' n'
                       \<longrightarrow> length pre \<le> length pre')"
      by (intro exI[of _ pre] exI[of _ w] exI[of _ n] exI[of _ post]) simp
  qed
  have C: "(\<forall>t. title (h r) = Some t \<longrightarrow> (\<forall>pre w n post. t = pre @ w @ post \<longrightarrow> \<not> fix_phrase w n))
          \<longrightarrow> fst (renderContribution opts h c) = h"
  proof
    assume a: "\<forall>t. title (h r) = Some t \<longrightarrow> (\<forall>pre w n post. t = pre @ w @ post \<longrightarrow> \<not> fix_phrase w n)"
    have "\<not> title_matches (title (h r))"
    proof (cases "title (h r)")
      case None
      then show ?thesis by (simp add: title_matches_def truthy_string_def)
    next
      case (Some t)
      with a have "\<not> (\<exists>pre w n post. t = pre @ w @ post \<and> fix_phrase w n)" by blast
      with Some show ?thesis unfolding title_matches_iff[symmetric] by simp
    qed
    then have "rewrite_issue opts (h r) = h r"
      by (simp add: rewrite_issue_def rewrite_title_def)
    then show "fst (renderContribution opts h c) = h"
      by (simp add: renderContribution_store[OF assms])
  qed
  have E: "snd (renderContribution opts h c)
           = Some (pr_prefix (h r)
                    @ (case title (fst (renderContribution opts h c) r) of
                         None \<Rightarrow> ''undefined'' | Some t \<Rightarrow> t)
                    @ ''. ([@'' @ login (user (h r)) @ '']('' @ html_url (user (h r)) @ ''))'')"
    unfolding tt renderContribution_text[OF assms] template_string_def by simp
  have D: "title (h r) = Some ''fixes #42'' \<and> baseIssueUrl opts = ''https://example.com/issues/''
          \<longrightarrow> snd (renderContribution opts h c)
                = Some (pr_prefix (h r) @ ''Closes [#42](https://example.com/issues/42)''
                          @ ''. ([@'' @ login (user (h r)) @ '']('' @ html_url (user (h r)) @ ''))'')"
  proof
    assume b: "title (h r) = Some ''fixes #42'' \<and> baseIssueUrl opts = ''https://example.com/issues/''"
    have p: "fix_phrase ''fixes #42'' ''42''" by code_simp
    have d: "CHR ''$'' \<notin> set (baseIssueUrl opts)" using b by simp
    have "rewrite_title opts (Some ([] @ ''fixes #42'' @ []))
       = Some ([] @ ''Closes [#'' @ ''42'' @ '']('' @ baseIssueUrl opts @ ''42'' @ '')'' @ [])"
      using p d by (intro rewrite_title_phrase(2)) simp_all
    then have "rewrite_title opts (title (h r)) = Some ''Closes [#42](https://example.com/issues/42)''"
      using b by simp
    then show "snd (renderContribution opts h c)
                = Some (pr_prefix (h r) @ ''Closes [#42](https://example.com/issues/42)''
                          @ ''. ([@'' @ login (user (h r)) @ '']('' @ html_url (user (h r)) @ ''))'')"
      by (simp add: renderContribution_text[OF assms] template_string_def)
  qed
  have F: "v \<in> set [''fix'', ''fixes'', ''fixed'', ''close'', ''closes'', ''closed'',
                      ''resolve'', ''resolves'', ''resolved'']
            \<and> m \<in> set ''#T'' \<and> n1 \<noteq> [] \<and> list_all is_digit n1
          \<longrightarrow> fix_phrase (v @ '' '' @ [m] @ n1) n1"
    using spec_words_are_phrases[of v m n1] by blast
  from A B C E D F show ?thesis by blast
qed

theorem leftmost_fix_phrase_rewritten_witness:
  "githubIssue (example_commit [''Bug''] None) = Some 0
   \<and> title (example_store ''Fixed t12, closes #3'' 0) = Some ([] @ ''Fixed t12'' @ '', closes #3'')
   \<and> fix_phrase ''Fixed t12'' ''12''
   \<and> CHR ''$'' \<notin> set (baseIssueUrl example_options)
   \<and> title (fst (renderContribution example_options (example_store ''Fixed t12, closes #3'')
                (example_commit [''Bug''] None)) 0)
       = Some ''Closes [#12](https://example.com/issues/12), closes #3''
   \<and> snd (renderContribution example_options (example_store ''fixes #42'')
                (example_commit [''Bug''] None))
       = Some ''[#7](https://example.com/pull/7) Closes [#42](https://example.com/issues/42). ([@alice](https://github.com/alice))''"
proof -
  have g: "githubIssue (example_commit [''Bug''] None) = Some 0"
    by (simp add: example_commit_def)
  have t: "title (example_store ''Fixed t12, closes #3'' 0) = Some ([] @ ''Fixed t12'' @ '', closes #3'')"
    by (simp add: example_store_def example_issue_def)
  have p: "fix_phrase ''Fixed t12'' ''12''" by code_simp
  have q: "'', closes #3'' = [] \<or> \<not> is_digit (hd '', closes #3'')"
    by (simp add: is_digit_def digit_chars_def)
  have l: "\<forall>pre' w' n' post'. [] @ ''Fixed t12'' @ '', closes #3'' = pre' @ w' @ post' \<and> fix_phrase w' n'
                  \<longrightarrow> length ([] :: string) \<le> length pre'"
    by simp
  have d: "CHR ''$'' \<notin> set (baseIssueUrl example_options)" by (simp add: example_options_def)
  have e: "title (example_store ''fixes #42'' 0) = Some ''fixes #42''
           \<and> baseIssueUrl example_options = ''https://example.com/issues/''"
    by (simp add: example_store_def example_issue_def example_options_def)
  have x: "pr_prefix (example_store ''fixes #42'' 0) = ''[#7](https://example.com/pull/7) ''"
    by code_simp
  have y: "user (example_store ''fixes #42'' 0) = \<lparr>login = ''alice'', html_url = ''https://github.com/alice''\<rparr>"
    by (simp add: example_store_def example_issue_def)
  have b: "baseIssueUrl example_options = ''https://example.com/issues/''"
    by (simp add: example_options_def)
  from leftmost_fix_phrase_rewritten[OF g, of "example_store ''Fixed t12, closes #3''"
      "[]" "''Fixed t12''" "'', closes #3''" "''12''" example_options] t p q l d
  have "title (fst (renderContribution example_options (example_store ''Fixed t12, closes #3'')
                (example_commit [''Bug''] None)) 0)
       = Some ([] @ ''Closes [#'' @ ''12'' @ '']('' @ baseIssueUrl example_options @ ''12'' @ '')''
                 @ '', closes #3'')"
    by blast
  then have 1: "title (fst (renderContribution example_options (example_store ''Fixed t12, closes #3'')
                (example_commit [''Bug''] None)) 0)
       = Some ''Closes [#12](https://example.com/issues/12), closes #3''"
    by (simp add: b)
  from leftmost_fix_phrase_rewritten[OF g, of "example_store ''fixes #42''" _ _ _ _ example_options] e
  have "snd (renderContribution example_options (example_store ''fixes #42'')
                (example_commit [''Bug''] None))
       = Some (pr_prefix (example_store ''fixes #42'' 0) @ ''Closes [#42](https://example.com/issues/42)''
                 @ ''. ([@'' @ login (user (example_store ''fixes #42'' 0)) @ '']('' 
                 @ html_url (user (example_store ''fixes #42'' 0)) @ ''))'')"
    by blast
  then have 2: "snd (renderContribution example_options (example_store ''fixes #42'')
                (example_commit [''Bug''] None))
       = Some ''[#7](https://example.com/pull/7) Closes [#42](https://example.com/issues/42). ([@alice](https://github.com/alice))''"
    by (simp add: x y)
  from g t p d 1 2 show ?thesis by blast
qed

subsection \<open>C2: rendering a release twice\<close>

text \<open>
  C2 says that two calls of \<^verbatim>\<open>renderRelease\<close> on the same release give the same
  markdown, the second call rewriting nothing. The pattern is not global, so one call
  rewrites one phrase of a title; a title with two phrases is rewritten again by the
  second call, and the two renderings differ. Here the release has one commit under Bug
  whose issue is titled \<^verbatim>\<open>fix #1 fix #2\<close>.
\<close>

theorem render_twice_counterexample:
  "snd (renderRelease example_options (example_store ''fix #1 fix #2'')
          (example_release [example_commit [''Bug''] None])) =
     ''## Unreleased (2020-01-01)\<newline>\<newline>#### Bug\<newline>* [#7](https://example.com/pull/7) Closes [#1](https://example.com/issues/1) fix #2. ([@alice](https://github.com/alice))''
   \<and> snd (renderRelease example_options
          (fst (renderRelease example_options (example_store ''fix #1 fix #2'')
                 (example_release [example_commit [''Bug''] None])))
          (example_release [example_commit [''Bug''] None])) =
     ''## Unreleased (2020-01-01)\<newline>\<newline>#### Bug\<newline>* [#7](https://example.com/pull/7) Closes [#1](https://example.com/issues/1) Closes [#2](https://example.com/issues/2). ([@alice](https://github.com/alice))''"
  by code_simp

text \<open>
  C2, amended: when every issue linked from a commit that carries one of the configured
  categories (the commits that \<^verbatim>\<open>groupByCategory\<close> keeps, the only ones rendered) has a
  title that one rewrite brings to a title that no longer matches the pattern, the second
  call of \<^verbatim>\<open>renderRelease\<close> returns the markdown of the first and leaves the store,
  hence every title, as the first call left it. Nothing is asked of the issues of commits
  that carry no configured category. In the witness the release has a commit under Bug
  titled \<^verbatim>\<open>fixes #42\<close> and a commit under Docs, which is not configured, whose title
  \<^verbatim>\<open>fix #1 fix #2\<close> would still match after one rewrite.
\<close>

theorem render_twice_same_when_settled:
  assumes "\<forall>c\<in>set (commits rel). (\<exists>n\<in>set (categories opts). carries n c) \<longrightarrow>
             (\<forall>r. githubIssue c = Some r \<longrightarrow>
                \<not> title_matches (rewrite_title opts (title (h r))))"
  shows "renderRelease opts (fst (renderRelease opts h rel)) rel
           = (fst (renderRelease opts h rel), snd (renderRelease opts h rel))"
proof -
  define rel' where
    "rel' = rel\<lparr>commits := filter (\<lambda>c. \<exists>n\<in>set (categories opts). carries n c) (commits rel)\<rparr>"
  have same: "\<And>h. renderRelease opts h rel' = renderRelease opts h rel"
    unfolding rel'_def by (rule renderRelease_rendered)
  let ?R = "issue_refs (commits rel')"
  let ?V = "release_refs opts rel'"
  have st: "settled_once opts ?R h"
    unfolding settled_once_def
  proof
    fix r assume "r \<in> ?R"
    then obtain c where c: "c \<in> set (commits rel')" "githubIssue c = Some r"
      unfolding issue_refs_iff by blast
    from c(1) have "c \<in> set (commits rel)" "\<exists>n\<in>set (categories opts). carries n c"
      by (simp_all add: rel'_def)
    with assms c(2) show "\<not> title_matches (rewrite_title opts (title (h r)))" by blast
  qed
  have v: "?V \<subseteq> ?R" by (rule release_refs_subset)
  have 1: "fst (renderRelease opts h rel') = settle opts ?V h"
       "snd (renderRelease opts h rel') = snd (renderRelease opts (settle opts ?R h) rel')"
    using renderRelease_settle[OF st subset_refl] by simp_all
  have st1: "settled_once opts ?R (settle opts ?V h)" using st by (rule settle_settled)
  have 2: "fst (renderRelease opts (settle opts ?V h) rel') = settle opts ?V (settle opts ?V h)"
       "snd (renderRelease opts (settle opts ?V h) rel')
          = snd (renderRelease opts (settle opts ?R (settle opts ?V h)) rel')"
    using renderRelease_settle[OF st1 subset_refl] by simp_all
  have "renderRelease opts (fst (renderRelease opts h rel')) rel'
           = (fst (renderRelease opts h rel'), snd (renderRelease opts h rel'))"
    unfolding 1 using 2 settle_absorb(1,3)[OF st v] by (simp add: prod_eq_iff)
  then show ?thesis unfolding same .
qed

theorem render_twice_same_when_settled_witness:
  "\<not> title_matches (rewrite_title example_options (title (two_issue_store 0)))
   \<and> title_matches (rewrite_title example_options (title (two_issue_store 1)))
   \<and> renderRelease example_options
        (fst (renderRelease example_options two_issue_store two_commit_release))
        two_commit_release
      = (fst (renderRelease example_options two_issue_store two_commit_release),
         snd (renderRelease example_options two_issue_store two_commit_release))
   \<and> snd (renderRelease example_options two_issue_store two_commit_release) =
       ''## Unreleased (2020-01-01)\<newline>\<newline>#### Bug\<newline>* [#7](https://example.com/pull/7) Closes [#42](https://example.com/issues/42). ([@alice](https://github.com/alice))''"
proof -
  have t: "\<not> title_matches (rewrite_title example_options (title (two_issue_store 0)))"
    by code_simp
  have u: "title_matches (rewrite_title example_options (title (two_issue_store 1)))"
    by code_simp
  have c: "\<not> carries ''Bug'' ((example_commit [''Docs''] None)\<lparr>githubIssue := Some 1\<rparr>)"
          "\<not> carries ''Feature'' ((example_commit [''Docs''] None)\<lparr>githubIssue := Some 1\<rparr>)"
    by (simp_all add: carries_def example_commit_def)
  have h: "\<forall>c\<in>set (commits two_commit_release).
      (\<exists>n\<in>set (categories example_options). carries n c) \<longrightarrow>
      (\<forall>r. githubIssue c = Some r \<longrightarrow>
        \<not> title_matches (rewrite_title example_options (title (two_issue_store r))))"
    using t c
    by (simp add: two_commit_release_def example_release_def example_options_def)
      (simp add: example_commit_def)
  have o: "snd (renderRelease example_options two_issue_store two_commit_release) =
       ''## Unreleased (2020-01-01)\<newline>\<newline>#### Bug\<newline>* [#7](https://example.com/pull/7) Closes [#42](https://example.com/issues/42). ([@alice](https://github.com/alice))''"
    by code_simp
  from t u render_twice_same_when_settled[OF h] o show ?thesis by blast
qed

subsection \<open>C3: grouping by category\<close>

text \<open>
  C3: \<^verbatim>\<open>groupByCategory\<close> makes one bucket for each configured category, in the order
  of the configured list whatever the commits are. The bucket of a category holds the
  commits that carry its label, in the order of the input, so a commit is in every bucket
  whose label it carries. A commit that carries no configured category is in no bucket,
  and the release renders as if the commit were not there. The rendered release lists the
  buckets that are not empty in that order, each under the heading of its category. A
  commit with the categories
  Feature and Bug under the configured list Bug, Feature is in both buckets, Bug first;
  the witness shows the two headings of the rendered release, and a commit under Docs
  that leaves no trace.
\<close>

theorem groupByCategory_buckets:
  "map category_name (groupByCategory opts cs) = categories opts
   \<and> (\<forall>i<length (categories opts).
        category_commits (groupByCategory opts cs ! i) =
          filter (\<lambda>c. \<exists>cats. commit_categories c = Some cats \<and> categories opts ! i \<in> set cats) cs)
   \<and> ((\<forall>n\<in>set (categories opts). \<forall>cats. commit_categories c = Some cats \<longrightarrow> n \<notin> set cats)
        \<longrightarrow> (\<forall>b\<in>set (groupByCategory opts cs). c \<notin> set (category_commits b))
          \<and> renderRelease opts h (rel\<lparr>commits := cs1 @ c # cs2\<rparr>)
              = renderRelease opts h (rel\<lparr>commits := cs1 @ cs2\<rparr>))
   \<and> (commit_categories c = Some [''Feature'', ''Bug''] \<and> categories opts = [''Bug'', ''Feature'']
        \<longrightarrow> groupByCategory opts [c] =
              [\<lparr>category_name = ''Bug'', category_commits = [c]\<rparr>,
               \<lparr>category_name = ''Feature'', category_commits = [c]\<rparr>])
   \<and> (\<exists>bodies. length bodies
          = length (filter (\<lambda>b. category_commits b \<noteq> []) (groupByCategory opts (commits rel)))
       \<and> snd (renderRelease opts h rel) =
           (if filter (\<lambda>b. category_commits b \<noteq> []) (groupByCategory opts (commits rel)) = []
            then []
            else ''## '' @ (if release_name rel = UNRELEASED_TAG then ''Unreleased''
                             else release_name rel) @ '' ('' @ date rel @ '')''
                 @ concat (map (\<lambda>(b, body). ''\<newline>\<newline>#### '' @ category_name b @ ''\<newline>'' @ body)
                     (zip (filter (\<lambda>b. category_commits b \<noteq> [])
                             (groupByCategory opts (commits rel))) bodies))
                 @ (case contributors rel of None \<Rightarrow> []
                    | Some cs \<Rightarrow> ''\<newline>\<newline>'' @ renderContributorList cs)))"
proof (intro conjI impI allI)
  show "map category_name (groupByCategory opts cs) = categories opts"
    by (simp add: groupByCategory_def comp_def)
next
  fix i assume "i < length (categories opts)"
  then show "category_commits (groupByCategory opts cs ! i) =
          filter (\<lambda>c. \<exists>cats. commit_categories c = Some cats \<and> categories opts ! i \<in> set cats) cs"
    by (simp add: groupByCategory_def carries_iff cong: filter_cong)
next
  assume a: "\<forall>n\<in>set (categories opts). \<forall>cats. commit_categories c = Some cats \<longrightarrow> n \<notin> set cats"
  then have n: "\<forall>n\<in>set (categories opts). \<not> carries n c"
    by (simp add: carries_iff)
  then show "\<forall>b\<in>set (groupByCategory opts cs). c \<notin> set (category_commits b)"
    by (auto simp: groupByCategory_def)
  show "renderRelease opts h (rel\<lparr>commits := cs1 @ c # cs2\<rparr>)
              = renderRelease opts h (rel\<lparr>commits := cs1 @ cs2\<rparr>)"
    using groupByCategory_drop[OF n] by (simp add: renderRelease_def Let_def)
next
  assume "commit_categories c = Some [''Feature'', ''Bug''] \<and> categories opts = [''Bug'', ''Feature'']"
  then show "groupByCategory opts [c] =
              [\<lparr>category_name = ''Bug'', category_commits = [c]\<rparr>,
               \<lparr>category_name = ''Feature'', category_commits = [c]\<rparr>]"
    by (simp add: groupByCategory_def carries_def)
next
  show "\<exists>bodies. length bodies
          = length (filter (\<lambda>b. category_commits b \<noteq> []) (groupByCategory opts (commits rel)))
       \<and> snd (renderRelease opts h rel) =
           (if filter (\<lambda>b. category_commits b \<noteq> []) (groupByCategory opts (commits rel)) = []
            then []
            else ''## '' @ (if release_name rel = UNRELEASED_TAG then ''Unreleased''
                             else release_name rel) @ '' ('' @ date rel @ '')''
                 @ concat (map (\<lambda>(b, body). ''\<newline>\<newline>#### '' @ category_name b @ ''\<newline>'' @ body)
                     (zip (filter (\<lambda>b. category_commits b \<noteq> [])
                             (groupByCategory opts (commits rel))) bodies))
                 @ (case contributors rel of None \<Rightarrow> []
                    | Some cs \<Rightarrow> ''\<newline>\<newline>'' @ renderContributorList cs))"
    by (rule renderRelease_text)
qed

theorem groupByCategory_buckets_witness:
  "commit_categories (example_commit [''Feature'', ''Bug''] None) = Some [''Feature'', ''Bug'']
   \<and> categories example_options = [''Bug'', ''Feature'']
   \<and> groupByCategory example_options [example_commit [''Feature'', ''Bug''] None] =
       [\<lparr>category_name = ''Bug'', category_commits = [example_commit [''Feature'', ''Bug''] None]\<rparr>,
        \<lparr>category_name = ''Feature'', category_commits = [example_commit [''Feature'', ''Bug''] None]\<rparr>]
   \<and> snd (renderRelease example_options (example_store ''Add a thing'')
        (example_release [example_commit [''Docs''] None, example_commit [''Feature'', ''Bug''] None])) =
      ''## Unreleased (2020-01-01)\<newline>\<newline>#### Bug\<newline>* [#7](https://example.com/pull/7) Add a thing. ([@alice](https://github.com/alice))\<newline>\<newline>#### Feature\<newline>* [#7](https://example.com/pull/7) Add a thing. ([@alice](https://github.com/alice))''"
proof -
  have 1: "commit_categories (example_commit [''Feature'', ''Bug''] None) = Some [''Feature'', ''Bug'']
   \<and> categories example_options = [''Bug'', ''Feature'']"
    by (simp add: example_commit_def example_options_def)
  have 2: "snd (renderRelease example_options (example_store ''Add a thing'')
        (example_release [example_commit [''Docs''] None, example_commit [''Feature'', ''Bug''] None])) =
      ''## Unreleased (2020-01-01)\<newline>\<newline>#### Bug\<newline>* [#7](https://example.com/pull/7) Add a thing. ([@alice](https://github.com/alice))\<newline>\<newline>#### Feature\<newline>* [#7](https://example.com/pull/7) Add a thing. ([@alice](https://github.com/alice))''"
    by code_simp
  from groupByCategory_buckets[of example_options "[]" "example_commit [''Feature'', ''Bug''] None"] 1 2
  show ?thesis by blast
qed

subsection \<open>C4: a release without matching commits\<close>

text \<open>
  C4: when every bucket of a release is empty, which is to say that no commit of the
  release carries a configured category, \<^verbatim>\<open>renderRelease\<close> returns the empty string
  and leaves the store alone, and \<^verbatim>\<open>renderMarkdown\<close> gives the same result, text and
  store, as for the list of releases without that release.
\<close>

theorem release_without_matching_commits:
  "((\<forall>b\<in>set (groupByCategory opts (commits rel)). category_commits b = [])
      \<longleftrightarrow> (\<forall>c\<in>set (commits rel). \<forall>cats. commit_categories c = Some cats \<longrightarrow>
             set cats \<inter> set (categories opts) = {}))
   \<and> ((\<forall>b\<in>set (groupByCategory opts (commits rel)). category_commits b = [])
      \<longrightarrow> renderRelease opts h rel = (h, [])
        \<and> renderMarkdown opts h (rs1 @ rel # rs2) = renderMarkdown opts h (rs1 @ rs2))"
proof (intro conjI impI)
  have "\<And>n. filter (carries n) (commits rel) = [] \<longleftrightarrow>
             (\<forall>c\<in>set (commits rel). \<forall>cats. commit_categories c = Some cats \<longrightarrow> n \<notin> set cats)"
    by (simp add: filter_empty_conv carries_iff)
  then have "(\<forall>b\<in>set (groupByCategory opts (commits rel)). category_commits b = []) \<longleftrightarrow>
        (\<forall>n\<in>set (categories opts). \<forall>c\<in>set (commits rel). \<forall>cats.
            commit_categories c = Some cats \<longrightarrow> n \<notin> set cats)"
    by (simp add: groupByCategory_def)
  also have "\<dots> \<longleftrightarrow> (\<forall>c\<in>set (commits rel). \<forall>cats. commit_categories c = Some cats \<longrightarrow>
             set cats \<inter> set (categories opts) = {})"
    by blast
  finally show "(\<forall>b\<in>set (groupByCategory opts (commits rel)). category_commits b = [])
      \<longleftrightarrow> (\<forall>c\<in>set (commits rel). \<forall>cats. commit_categories c = Some cats \<longrightarrow>
             set cats \<inter> set (categories opts) = {})" .
next
  assume e: "\<forall>b\<in>set (groupByCategory opts (commits rel)). category_commits b = []"
  then have "filter (\<lambda>category. length (category_commits category) > 0)
                (groupByCategory opts (commits rel)) = []"
    by (simp add: filter_empty_conv)
  then have 1: "\<And>h. renderRelease opts h rel = (h, [])"
    by (simp add: renderRelease_def)
  show "renderRelease opts h rel = (h, [])" by (rule 1)
  have "map_store (renderRelease opts) h (rs1 @ rel # rs2) =
        (fst (map_store (renderRelease opts) h (rs1 @ rs2)),
         snd (map_store (renderRelease opts) h rs1) @ []
           # snd (map_store (renderRelease opts) (fst (map_store (renderRelease opts) h rs1)) rs2))"
    by (simp add: map_store_append 1 case_prod_beta)
  moreover have "snd (map_store (renderRelease opts) h (rs1 @ rs2)) =
         snd (map_store (renderRelease opts) h rs1)
           @ snd (map_store (renderRelease opts) (fst (map_store (renderRelease opts) h rs1)) rs2)"
    by (simp add: map_store_append case_prod_beta)
  ultimately show "renderMarkdown opts h (rs1 @ rel # rs2) = renderMarkdown opts h (rs1 @ rs2)"
    by (simp add: renderMarkdown_def case_prod_beta filter_Boolean_Some)
qed

theorem release_without_matching_commits_witness:
  "groupByCategory example_options
      (commits (example_release [example_commit [''Docs''] None, example_commit [] None]))
     = [\<lparr>category_name = ''Bug'', category_commits = []\<rparr>,
        \<lparr>category_name = ''Feature'', category_commits = []\<rparr>]
   \<and> renderRelease example_options (example_store ''Add a thing'')
      (example_release [example_commit [''Docs''] None, example_commit [] None])
     = (example_store ''Add a thing'', [])
   \<and> snd (renderMarkdown example_options (example_store ''Add a thing'')
       ([] @ example_release [example_commit [''Docs''] None, example_commit [] None]
           # [example_release [example_commit [''Bug''] None]])) =
      ''\<newline>## Unreleased (2020-01-01)\<newline>\<newline>#### Bug\<newline>* [#7](https://example.com/pull/7) Add a thing. ([@alice](https://github.com/alice))''"
proof -
  have g: "groupByCategory example_options
      (commits (example_release [example_commit [''Docs''] None, example_commit [] None]))
     = [\<lparr>category_name = ''Bug'', category_commits = []\<rparr>,
        \<lparr>category_name = ''Feature'', category_commits = []\<rparr>]"
    by (simp add: groupByCategory_def example_release_def example_commit_def example_options_def
        carries_def)
  then have h: "\<forall>b\<in>set (groupByCategory example_options
      (commits (example_release [example_commit [''Docs''] None, example_commit [] None]))).
        category_commits b = []"
    by simp
  have o: "snd (renderMarkdown example_options (example_store ''Add a thing'')
       ([] @ [example_release [example_commit [''Bug''] None]])) =
      ''\<newline>## Unreleased (2020-01-01)\<newline>\<newline>#### Bug\<newline>* [#7](https://example.com/pull/7) Add a thing. ([@alice](https://github.com/alice))''"
    by code_simp
  from release_without_matching_commits[of example_options
      "example_release [example_commit [''Docs''] None, example_commit [] None]"
      "example_store ''Add a thing''" "[]" "[example_release [example_commit [''Bug''] None]]"] h
  have "renderRelease example_options (example_store ''Add a thing'')
      (example_release [example_commit [''Docs''] None, example_commit [] None])
     = (example_store ''Add a thing'', [])
    \<and> renderMarkdown example_options (example_store ''Add a thing'')
       ([] @ example_release [example_commit [''Docs''] None, example_commit [] None]
           # [example_release [example_commit [''Bug''] None]])
      = renderMarkdown example_options (example_store ''Add a thing'')
       ([] @ [example_release [example_commit [''Bug''] None]])"
    by blast
  with g o show ?thesis by simp
qed

subsection \<open>C5: the join of the releases\<close>

text \<open>
  C5: \<^verbatim>\<open>renderMarkdown\<close> returns a newline followed by the renderings of the releases
  that are not empty, in the order of the input, joined by
  three newlines. The rendering of the release at index \<open>i\<close> is made in the store that
  the releases before it leave. The text is a single newline, or it goes on with the
  heading \<^verbatim>\<open>## \<close> of the first release rendered, so the text begins with exactly one
  newline. The last two parts say what joining is: nothing for no string, and otherwise
  the first string followed by each other string behind a separator.
\<close>

theorem renderMarkdown_joins_renderings:
  "snd (renderMarkdown opts h rels) =
     ''\<newline>'' @ join_str ''\<newline>\<newline>\<newline>''
       (filter (\<lambda>x. x \<noteq> [])
         (map (\<lambda>i. snd (renderRelease opts (fst (renderMarkdown opts h (take i rels))) (rels ! i)))
            [0 ..< length rels]))
   \<and> (snd (renderMarkdown opts h rels) = ''\<newline>''
      \<or> (\<exists>rest. snd (renderMarkdown opts h rels) = ''\<newline>## '' @ rest))
   \<and> join_str ''\<newline>\<newline>\<newline>'' [] = []
   \<and> join_str ''\<newline>\<newline>\<newline>'' (x # xs) = x @ concat (map (\<lambda>y. ''\<newline>\<newline>\<newline>'' @ y) xs)"
proof (intro conjI)
  have f: "\<And>i. fst (renderMarkdown opts h (take i rels))
               = fst (map_store (renderRelease opts) h (take i rels))"
    by (simp add: renderMarkdown_def case_prod_beta)
  show 1: "snd (renderMarkdown opts h rels) =
     ''\<newline>'' @ join_str ''\<newline>\<newline>\<newline>''
       (filter (\<lambda>x. x \<noteq> [])
         (map (\<lambda>i. snd (renderRelease opts (fst (renderMarkdown opts h (take i rels))) (rels ! i)))
            [0 ..< length rels]))"
    unfolding f
    by (simp add: renderMarkdown_def case_prod_beta filter_Boolean_Some
        map_store_snd_nth[of "renderRelease opts" h rels, symmetric])
  let ?ys = "filter (\<lambda>x. x \<noteq> [])
         (map (\<lambda>i. snd (renderRelease opts (fst (renderMarkdown opts h (take i rels))) (rels ! i)))
            [0 ..< length rels])"
  show "snd (renderMarkdown opts h rels) = ''\<newline>''
      \<or> (\<exists>rest. snd (renderMarkdown opts h rels) = ''\<newline>## '' @ rest)"
  proof (cases ?ys)
    case Nil
    with 1 show ?thesis by simp
  next
    case (Cons y ys)
    then have "y \<in> set ?ys" by simp
    then obtain i where "y = snd (renderRelease opts (fst (renderMarkdown opts h (take i rels))) (rels ! i))"
      "y \<noteq> []" by auto
    then obtain rest where "y = ''## '' @ rest"
      using renderRelease_heading by metis
    with 1 Cons show ?thesis by (simp add: join_str_Cons)
  qed
  show "join_str ''\<newline>\<newline>\<newline>'' [] = []" by simp
  show "join_str ''\<newline>\<newline>\<newline>'' (x # xs) = x @ concat (map (\<lambda>y. ''\<newline>\<newline>\<newline>'' @ y) xs)"
    by (rule join_str_Cons)
qed

theorem renderMarkdown_joins_renderings_witness:
  "snd (renderMarkdown example_options (example_store ''Add a thing'')
         [example_release [example_commit [''Bug''] None],
          example_release [example_commit [''Docs''] None],
          example_release [example_commit [''Feature''] None]]) =
     ''\<newline>## Unreleased (2020-01-01)\<newline>\<newline>#### Bug\<newline>* [#7](https://example.com/pull/7) Add a thing. ([@alice](https://github.com/alice))\<newline>\<newline>\<newline>## Unreleased (2020-01-01)\<newline>\<newline>#### Feature\<newline>* [#7](https://example.com/pull/7) Add a thing. ([@alice](https://github.com/alice))''
   \<and> (snd (renderMarkdown example_options (example_store ''Add a thing'')
         [example_release [example_commit [''Bug''] None],
          example_release [example_commit [''Docs''] None],
          example_release [example_commit [''Feature''] None]]) = ''\<newline>''
      \<or> (\<exists>rest. snd (renderMarkdown example_options (example_store ''Add a thing'')
         [example_release [example_commit [''Bug''] None],
          example_release [example_commit [''Docs''] None],
          example_release [example_commit [''Feature''] None]]) = ''\<newline>## '' @ rest))"
proof -
  have "snd (renderMarkdown example_options (example_store ''Add a thing'')
         [example_release [example_commit [''Bug''] None],
          example_release [example_commit [''Docs''] None],
          example_release [example_commit [''Feature''] None]]) =
     ''\<newline>## Unreleased (2020-01-01)\<newline>\<newline>#### Bug\<newline>* [#7](https://example.com/pull/7) Add a thing. ([@alice](https://github.com/alice))\<newline>\<newline>\<newline>## Unreleased (2020-01-01)\<newline>\<newline>#### Feature\<newline>* [#7](https://example.com/pull/7) Add a thing. ([@alice](https://github.com/alice))''"
    by code_simp
  with renderMarkdown_joins_renderings[of example_options "example_store ''Add a thing''"
         "[example_release [example_commit [''Bug''] None],
          example_release [example_commit [''Docs''] None],
          example_release [example_commit [''Feature''] None]]"]
  show ?thesis by blast
qed

subsection \<open>C6: grouping by package\<close>

text \<open>
  C6: \<^verbatim>\<open>renderContributionsByPackage\<close> files each commit under its label. The label
  (\<open>package_label\<close>) is \<^verbatim>\<open>Other\<close> for a commit without packages, and otherwise the
  names of its packages, each between backticks, joined by a comma and a space. The
  labels of the groups are the distinct labels in the order in which they are first
  seen, and the group of a label holds the commits of that label in the order of the
  input. A category is rendered by package when one of its commits has a package, and
  the text has one bullet per group, the label followed by the nested list. Commits with
  the packages core; core and utils; and none make three groups, in this order.
\<close>

theorem commits_grouped_by_package_label:
  "map fst (commitsByPackage cs) = rev (remdups (rev (map package_label cs)))
   \<and> (\<forall>i<length (commitsByPackage cs).
        snd (commitsByPackage cs ! i) =
          filter (\<lambda>c. package_label c = fst (commitsByPackage cs ! i)) cs)
   \<and> (packages c = None \<or> packages c = Some [] \<longrightarrow> package_label c = ''Other'')
   \<and> (packages c = Some (p # ps) \<longrightarrow>
        package_label c =
          [CHR 0x60] @ p @ [CHR 0x60] @ concat (map (\<lambda>q. '', '' @ [CHR 0x60] @ q @ [CHR 0x60]) ps))
   \<and> (hasPackages cs \<longleftrightarrow> (\<exists>c\<in>set cs. \<exists>p ps. packages c = Some (p # ps)))
   \<and> (hasPackages (category_commits cat) \<longrightarrow>
        render_category opts (h, md) cat =
          (fst (renderContributionsByPackage opts h (category_commits cat)),
           md @ ''\<newline>\<newline>#### '' @ category_name cat @ ''\<newline>''
              @ snd (renderContributionsByPackage opts h (category_commits cat))))
   \<and> (\<exists>bodies. length bodies = length (commitsByPackage cs)
         \<and> snd (renderContributionsByPackage opts h cs) =
             join_str ''\<newline>'' (map (\<lambda>(label, body). ''* '' @ label @ ''\<newline>'' @ body)
                                     (zip (map fst (commitsByPackage cs)) bodies)))
   \<and> (packages c1 = Some [''core''] \<and> packages c2 = Some [''core'', ''utils''] \<and> packages c3 = None
        \<longrightarrow> commitsByPackage [c1, c2, c3] =
              [([CHR 0x60] @ ''core'' @ [CHR 0x60], [c1]),
               ([CHR 0x60] @ ''core'' @ [CHR 0x60] @ '', '' @ [CHR 0x60] @ ''utils'' @ [CHR 0x60], [c2]),
               (''Other'', [c3])])"
proof (intro conjI impI allI)
  show "map fst (commitsByPackage cs) = rev (remdups (rev (map package_label cs)))"
    by (rule commitsByPackage_keys)
next
  fix i assume "i < length (commitsByPackage cs)"
  then have "(fst (commitsByPackage cs ! i), snd (commitsByPackage cs ! i)) \<in> set (commitsByPackage cs)"
    by simp
  then show "snd (commitsByPackage cs ! i) =
          filter (\<lambda>c. package_label c = fst (commitsByPackage cs ! i)) cs"
    by (rule commitsByPackage_groups)
next
  assume "packages c = None \<or> packages c = Some []"
  then show "package_label c = ''Other''"
    by (auto simp: package_label_def changedPackages_def renderPackageNames_def)
next
  assume "packages c = Some (p # ps)"
  then show "package_label c =
          [CHR 0x60] @ p @ [CHR 0x60] @ concat (map (\<lambda>q. '', '' @ [CHR 0x60] @ q @ [CHR 0x60]) ps)"
    by (simp add: package_label_def changedPackages_def renderPackageNames_Cons)
next
  have "\<And>c::CommitInfo. (case packages c of None \<Rightarrow> False | Some ps \<Rightarrow> length ps > 0)
            \<longleftrightarrow> (\<exists>p ps. packages c = Some (p # ps))"
    by (simp add: neq_Nil_conv split: option.splits)
  then show "hasPackages cs \<longleftrightarrow> (\<exists>c\<in>set cs. \<exists>p ps. packages c = Some (p # ps))"
    unfolding hasPackages_def list_ex_iff by simp
next
  assume "hasPackages (category_commits cat)"
  then show "render_category opts (h, md) cat =
          (fst (renderContributionsByPackage opts h (category_commits cat)),
           md @ ''\<newline>\<newline>#### '' @ category_name cat @ ''\<newline>''
              @ snd (renderContributionsByPackage opts h (category_commits cat)))"
    by (simp add: render_category_def case_prod_beta)
next
  let ?f = "\<lambda>h1 (packageName, group).
                case renderContributionList opts h1 group ''  '' of
                  (h2, l) \<Rightarrow> (h2, ''* '' @ packageName @ ''\<newline>'' @ l)"
  let ?g = "commitsByPackage cs"
  define bodies where "bodies = map (\<lambda>i. snd (renderContributionList opts
       (fst (map_store ?f h (take i ?g))) (snd (?g ! i)) ''  '')) [0 ..< length ?g]"
  have "snd (map_store ?f h ?g) =
     map (\<lambda>(label, body). ''* '' @ label @ ''\<newline>'' @ body) (zip (map fst ?g) bodies)"
    unfolding map_store_snd_nth[of ?f h ?g] bodies_def
    by (rule nth_equalityI) (simp_all add: case_prod_beta)
  then have "snd (renderContributionsByPackage opts h cs) =
      join_str ''\<newline>'' (map (\<lambda>(label, body). ''* '' @ label @ ''\<newline>'' @ body)
                                     (zip (map fst ?g) bodies))"
    by (simp add: renderContributionsByPackage_def case_prod_beta)
  moreover have "length bodies = length ?g" by (simp add: bodies_def)
  ultimately show "\<exists>bodies. length bodies = length (commitsByPackage cs)
         \<and> snd (renderContributionsByPackage opts h cs) =
             join_str ''\<newline>'' (map (\<lambda>(label, body). ''* '' @ label @ ''\<newline>'' @ body)
                                     (zip (map fst (commitsByPackage cs)) bodies))"
    by blast
next
  assume "packages c1 = Some [''core''] \<and> packages c2 = Some [''core'', ''utils''] \<and> packages c3 = None"
  then show "commitsByPackage [c1, c2, c3] =
              [([CHR 0x60] @ ''core'' @ [CHR 0x60], [c1]),
               ([CHR 0x60] @ ''core'' @ [CHR 0x60] @ '', '' @ [CHR 0x60] @ ''utils'' @ [CHR 0x60], [c2]),
               (''Other'', [c3])]"
    by (simp add: commitsByPackage_def changedPackages_def renderPackageNames_def)
qed

theorem commits_grouped_by_package_label_witness:
  "packages (plain_commit [''Bug''] (Some [''core''])) = Some [''core'']
   \<and> packages (plain_commit [''Bug''] (Some [''core'', ''utils''])) = Some [''core'', ''utils'']
   \<and> packages (plain_commit [''Bug''] None) = None
   \<and> map fst (commitsByPackage [plain_commit [''Bug''] (Some [''core'']),
        plain_commit [''Bug''] (Some [''core'', ''utils'']), plain_commit [''Bug''] None]) =
       [[CHR 0x60] @ ''core'' @ [CHR 0x60],
        [CHR 0x60] @ ''core'' @ [CHR 0x60] @ '', '' @ [CHR 0x60] @ ''utils'' @ [CHR 0x60],
        ''Other'']
   \<and> snd (renderRelease example_options (example_store ''Add a thing'')
        (example_release [example_commit [''Bug''] (Some [''core'']),
           example_commit [''Bug''] (Some [''core'', ''utils'']), example_commit [''Bug''] None])) =
      ''## Unreleased (2020-01-01)\<newline>\<newline>#### Bug\<newline>* '' @ [CHR 0x60] @ ''core'' @ [CHR 0x60]
        @ ''\<newline>  * [#7](https://example.com/pull/7) Add a thing. ([@alice](https://github.com/alice))\<newline>* ''
        @ [CHR 0x60] @ ''core'' @ [CHR 0x60] @ '', '' @ [CHR 0x60] @ ''utils'' @ [CHR 0x60]
        @ ''\<newline>  * [#7](https://example.com/pull/7) Add a thing. ([@alice](https://github.com/alice))\<newline>* Other''
        @ ''\<newline>  * [#7](https://example.com/pull/7) Add a thing. ([@alice](https://github.com/alice))''"
proof -
  have 1: "packages (plain_commit [''Bug''] (Some [''core''])) = Some [''core'']
   \<and> packages (plain_commit [''Bug''] (Some [''core'', ''utils''])) = Some [''core'', ''utils'']
   \<and> packages (plain_commit [''Bug''] None) = None"
    by (simp add: plain_commit_def)
  have 2: "snd (renderRelease example_options (example_store ''Add a thing'')
        (example_release [example_commit [''Bug''] (Some [''core'']),
           example_commit [''Bug''] (Some [''core'', ''utils'']), example_commit [''Bug''] None])) =
      ''## Unreleased (2020-01-01)\<newline>\<newline>#### Bug\<newline>* '' @ [CHR 0x60] @ ''core'' @ [CHR 0x60]
        @ ''\<newline>  * [#7](https://example.com/pull/7) Add a thing. ([@alice](https://github.com/alice))\<newline>* ''
        @ [CHR 0x60] @ ''core'' @ [CHR 0x60] @ '', '' @ [CHR 0x60] @ ''utils'' @ [CHR 0x60]
        @ ''\<newline>  * [#7](https://example.com/pull/7) Add a thing. ([@alice](https://github.com/alice))\<newline>* Other''
        @ ''\<newline>  * [#7](https://example.com/pull/7) Add a thing. ([@alice](https://github.com/alice))''"
    by code_simp
  from commits_grouped_by_package_label[of _ _ _ _ _ _ _ _
      "plain_commit [''Bug''] (Some [''core''])" "plain_commit [''Bug''] (Some [''core'', ''utils''])"
      "plain_commit [''Bug''] None"] 1
  have "commitsByPackage [plain_commit [''Bug''] (Some [''core'']),
        plain_commit [''Bug''] (Some [''core'', ''utils'']), plain_commit [''Bug''] None] =
       [([CHR 0x60] @ ''core'' @ [CHR 0x60], [plain_commit [''Bug''] (Some [''core''])]),
        ([CHR 0x60] @ ''core'' @ [CHR 0x60] @ '', '' @ [CHR 0x60] @ ''utils'' @ [CHR 0x60],
           [plain_commit [''Bug''] (Some [''core'', ''utils''])]),
        (''Other'', [plain_commit [''Bug''] None])]"
    by blast
  then have 3: "map fst (commitsByPackage [plain_commit [''Bug''] (Some [''core'']),
        plain_commit [''Bug''] (Some [''core'', ''utils'']), plain_commit [''Bug''] None]) =
       [[CHR 0x60] @ ''core'' @ [CHR 0x60],
        [CHR 0x60] @ ''core'' @ [CHR 0x60] @ '', '' @ [CHR 0x60] @ ''utils'' @ [CHR 0x60],
        ''Other'']"
    by simp
  from 1 2 3 show ?thesis by blast
qed

subsection \<open>C7: the line of a commit\<close>

text \<open>
  C7: a commit without a linked issue renders nothing, leaves the store alone, and the
  list of contributions is the list without it. A commit with an issue renders the
  prefix \<^verbatim>\<open>[#<number>](<url>) \<close> exactly when the issue has a number and a pull request
  with an \<^verbatim>\<open>html_url\<close>, then the title as the call leaves it, then the author. The
  code tests the three for truth (line 113), so a number is one other than 0 and a URL
  one other than the empty string.

  No function of the renderer has an error among its results: the source has no
  \<^verbatim>\<open>throw\<close>, and it tests each optional field before it reads through it (lines 62,
  70, 78, 110, 113, 118 and 151). What an absent field gives instead: no issue, no line;
  no number, pull request or URL, no prefix; no title, the word \<^verbatim>\<open>undefined\<close> and no
  rewrite; no packages, the label \<^verbatim>\<open>Other\<close>; no categories, no bucket; no contributors,
  the text of the categories and nothing after it.
\<close>

theorem contribution_line:
  "(githubIssue c = None \<longrightarrow>
       renderContribution opts h c = (h, None)
     \<and> renderContributionList opts h (cs1 @ c # cs2) p
         = renderContributionList opts h (cs1 @ cs2) p)
   \<and> (githubIssue c = Some r \<longrightarrow>
        snd (renderContribution opts h c) =
          Some ((if (\<exists>n. number (h r) = Some n \<and> n \<noteq> 0)
                    \<and> (\<exists>pr u. pull_request (h r) = Some pr \<and> pr_html_url pr = Some u \<and> u \<noteq> [])
                 then ''[#'' @ string_of_nat (the (number (h r))) @ '']('' 
                        @ the (pr_html_url (the (pull_request (h r)))) @ '') ''
                 else [])
                @ (case title (fst (renderContribution opts h c) r) of
                     None \<Rightarrow> ''undefined'' | Some t \<Rightarrow> t)
                @ ''. ([@'' @ login (user (h r)) @ '']('' @ html_url (user (h r)) @ ''))''))
   \<and> (githubIssue c = Some r \<and> title (h r) = None \<longrightarrow>
        title (fst (renderContribution opts h c) r) = None)
   \<and> (packages c = None \<longrightarrow> package_label c = ''Other'' \<and> \<not> hasPackages [c])
   \<and> (commit_categories c = None \<longrightarrow>
        (\<forall>b\<in>set (groupByCategory opts cs). c \<notin> set (category_commits b)))
   \<and> (contributors rel = None
        \<and> filter (\<lambda>b. category_commits b \<noteq> []) (groupByCategory opts (commits rel)) \<noteq> []
      \<longrightarrow> renderRelease opts h rel =
            foldl (render_category opts)
              (h, ''## '' @ (if release_name rel = UNRELEASED_TAG then ''Unreleased''
                              else release_name rel) @ '' ('' @ date rel @ '')'')
              (filter (\<lambda>b. category_commits b \<noteq> []) (groupByCategory opts (commits rel))))"
proof (intro conjI impI)
  assume n: "githubIssue c = None"
  show "renderContribution opts h c = (h, None)" using n by (rule renderContribution_None)
  show "renderContributionList opts h (cs1 @ c # cs2) p
         = renderContributionList opts h (cs1 @ cs2) p"
    using n by (rule renderContributionList_drop)
next
  assume s: "githubIssue c = Some r"
  have "title (fst (renderContribution opts h c) r) = rewrite_title opts (title (h r))"
    by (simp add: renderContribution_store[OF s] rewrite_issue_def)
  then show "snd (renderContribution opts h c) =
          Some ((if (\<exists>n. number (h r) = Some n \<and> n \<noteq> 0)
                    \<and> (\<exists>pr u. pull_request (h r) = Some pr \<and> pr_html_url pr = Some u \<and> u \<noteq> [])
                 then ''[#'' @ string_of_nat (the (number (h r))) @ '']('' 
                        @ the (pr_html_url (the (pull_request (h r)))) @ '') ''
                 else [])
                @ (case title (fst (renderContribution opts h c) r) of
                     None \<Rightarrow> ''undefined'' | Some t \<Rightarrow> t)
                @ ''. ([@'' @ login (user (h r)) @ '']('' @ html_url (user (h r)) @ ''))'')"
    unfolding renderContribution_text[OF s] pr_prefix_iff[of "h r"] template_string_def
    by simp
next
  assume "githubIssue c = Some r \<and> title (h r) = None"
  then show "title (fst (renderContribution opts h c) r) = None"
    by (simp add: renderContribution_store rewrite_issue_def rewrite_title_def title_matches_def
        truthy_string_def)
next
  assume "packages c = None"
  then show "package_label c = ''Other''" "\<not> hasPackages [c]"
    by (simp_all add: package_label_def changedPackages_def renderPackageNames_def hasPackages_def)
next
  assume "commit_categories c = None"
  then show "\<forall>b\<in>set (groupByCategory opts cs). c \<notin> set (category_commits b)"
    by (auto simp: groupByCategory_def carries_def)
next
  assume "contributors rel = None
        \<and> filter (\<lambda>b. category_commits b \<noteq> []) (groupByCategory opts (commits rel)) \<noteq> []"
  then show "renderRelease opts h rel =
            foldl (render_category opts)
              (h, ''## '' @ (if release_name rel = UNRELEASED_TAG then ''Unreleased''
                              else release_name rel) @ '' ('' @ date rel @ '')'')
              (filter (\<lambda>b. category_commits b \<noteq> []) (groupByCategory opts (commits rel)))"
    by (simp add: renderRelease_def Let_def case_prod_beta)
qed

theorem contribution_line_witness:
  "githubIssue (plain_commit [''Bug''] None) = None
   \<and> renderContribution example_options (example_store ''Add a thing'') (plain_commit [''Bug''] None)
       = (example_store ''Add a thing'', None)
   \<and> githubIssue (example_commit [''Bug''] None) = Some 0
   \<and> snd (renderContribution example_options (example_store ''Add a thing'')
            (example_commit [''Bug''] None))
       = Some ''[#7](https://example.com/pull/7) Add a thing. ([@alice](https://github.com/alice))''
   \<and> snd (renderContribution example_options
            (\<lambda>r. (example_issue ''Add a thing'')\<lparr>pull_request := None\<rparr>)
            (example_commit [''Bug''] None))
       = Some ''Add a thing. ([@alice](https://github.com/alice))''
   \<and> snd (renderContributionList example_options (example_store ''Add a thing'')
            ([example_commit [''Bug''] None] @ plain_commit [''Bug''] None
               # [example_commit [''Bug''] None]) [])
       = ''* [#7](https://example.com/pull/7) Add a thing. ([@alice](https://github.com/alice))\<newline>* [#7](https://example.com/pull/7) Add a thing. ([@alice](https://github.com/alice))''"
proof -
  have n: "githubIssue (plain_commit [''Bug''] None) = None" by (simp add: plain_commit_def)
  have s: "githubIssue (example_commit [''Bug''] None) = Some 0" by (simp add: example_commit_def)
  have a: "snd (renderContribution example_options (example_store ''Add a thing'')
            (example_commit [''Bug''] None))
       = Some ''[#7](https://example.com/pull/7) Add a thing. ([@alice](https://github.com/alice))''"
    by code_simp
  have b: "snd (renderContribution example_options
            (\<lambda>r. (example_issue ''Add a thing'')\<lparr>pull_request := None\<rparr>)
            (example_commit [''Bug''] None))
       = Some ''Add a thing. ([@alice](https://github.com/alice))''"
    by code_simp
  have d: "snd (renderContributionList example_options (example_store ''Add a thing'')
            ([example_commit [''Bug''] None] @ [example_commit [''Bug''] None]) [])
       = ''* [#7](https://example.com/pull/7) Add a thing. ([@alice](https://github.com/alice))\<newline>* [#7](https://example.com/pull/7) Add a thing. ([@alice](https://github.com/alice))''"
    by code_simp
  from contribution_line[of "plain_commit [''Bug''] None" example_options
      "example_store ''Add a thing''" "[example_commit [''Bug''] None]"
      "[example_commit [''Bug''] None]" "[]"] n
  have e: "renderContribution example_options (example_store ''Add a thing'') (plain_commit [''Bug''] None)
       = (example_store ''Add a thing'', None)"
    "renderContributionList example_options (example_store ''Add a thing'')
            ([example_commit [''Bug''] None] @ plain_commit [''Bug''] None
               # [example_commit [''Bug''] None]) []
      = renderContributionList example_options (example_store ''Add a thing'')
            ([example_commit [''Bug''] None] @ [example_commit [''Bug''] None]) []"
    by blast+
  from n s a b d e show ?thesis by simp
qed

subsection \<open>C8: what rendering changes\<close>



subsection \<open>C9: the list of contributors\<close>

text \<open>
  C9: \<^verbatim>\<open>renderContributorList\<close> prints the heading \<^verbatim>\<open>#### Committers: N\<close> with N the
  length of the list it is given, followed by as many lines as there are contributors,
  joined by newlines. The lines are the bullets \<^verbatim>\<open>- name ([login](url))\<close>, or
  \<^verbatim>\<open>- [login](url)\<close> for a contributor without a name (an absent or empty name is no
  name: the code tests it for truth), sorted as whole strings. The last part shows that
  the order is not that of the names: the line of zed, who has no name, begins with a
  bracket and comes before the line of alice.
\<close>

theorem renderContributorList_heading_and_bullets:
  "(\<exists>lines. renderContributorList cs =
       ''#### Committers: '' @ string_of_nat (length cs) @ ''\<newline>'' @ join_str ''\<newline>'' lines
     \<and> length lines = length cs
     \<and> sorted lines
     \<and> mset lines = mset (map (\<lambda>c. ''- '' @
           (if name c \<noteq> None \<and> name c \<noteq> Some []
            then the (name c) @ '' (['' @ login c @ '']('' @ html_url c @ ''))''
            else ''['' @ login c @ '']('' @ html_url c @ '')'')) cs))
   \<and> renderContributorList
         [\<lparr>login = ''al'', html_url = ''u'', name = Some ''alice''\<rparr>,
          \<lparr>login = ''zed'', html_url = ''v'', name = None\<rparr>]
       = ''#### Committers: 2\<newline>- [zed](v)\<newline>- alice ([al](u))''"
proof -
  define bullet where "bullet = (\<lambda>c::GitHubUserResponse. ''- '' @
           (if name c \<noteq> None \<and> name c \<noteq> Some []
            then the (name c) @ '' (['' @ login c @ '']('' @ html_url c @ ''))''
            else ''['' @ login c @ '']('' @ html_url c @ '')''))"
  have b: "(\<lambda>c. ''- '' @ renderContributor c) = bullet"
    unfolding bullet_def
    by (rule ext)
      (auto simp: renderContributor_def truthy_string_def template_string_def Let_def
        split: option.splits)
  have "renderContributorList cs =
       ''#### Committers: '' @ string_of_nat (length cs) @ ''\<newline>''
         @ join_str ''\<newline>'' (sort (map bullet cs))"
    unfolding renderContributorList_def Let_def b ..
  moreover have "length (sort (map bullet cs)) = length cs" by simp
  moreover have "sorted (sort (map bullet cs))" by simp
  moreover have "mset (sort (map bullet cs)) = mset (map bullet cs)" by simp
  ultimately have "\<exists>lines. renderContributorList cs =
       ''#### Committers: '' @ string_of_nat (length cs) @ ''\<newline>'' @ join_str ''\<newline>'' lines
     \<and> length lines = length cs \<and> sorted lines \<and> mset lines = mset (map bullet cs)"
    by blast
  moreover have "renderContributorList
         [\<lparr>login = ''al'', html_url = ''u'', name = Some ''alice''\<rparr>,
          \<lparr>login = ''zed'', html_url = ''v'', name = None\<rparr>]
       = ''#### Committers: 2\<newline>- [zed](v)\<newline>- alice ([al](u))''"
    by code_simp
  ultimately show ?thesis unfolding bullet_def by blast
qed

subsection \<open>C10: an empty list of contributors\<close>

text \<open>
  C10: for a release that renders to something, a \<^verbatim>\<open>contributors\<close> field holding the
  empty list still adds the section, with the heading \<^verbatim>\<open>#### Committers: 0\<close> and no
  bullet after it; only an absent field leaves the section out. The rendering with the
  empty list is the rendering without the field followed by the section, and any list
  adds its section in the same way.
\<close>

theorem empty_contributors_section:
  assumes "snd (renderRelease opts h (rel\<lparr>contributors := None\<rparr>)) \<noteq> []"
  shows "renderRelease opts h (rel\<lparr>contributors := Some []\<rparr>) =
           (fst (renderRelease opts h (rel\<lparr>contributors := None\<rparr>)),
            snd (renderRelease opts h (rel\<lparr>contributors := None\<rparr>))
              @ ''\<newline>\<newline>#### Committers: 0\<newline>'')
       \<and> renderRelease opts h (rel\<lparr>contributors := Some cs\<rparr>) =
           (fst (renderRelease opts h (rel\<lparr>contributors := None\<rparr>)),
            snd (renderRelease opts h (rel\<lparr>contributors := None\<rparr>))
              @ ''\<newline>\<newline>'' @ renderContributorList cs)"
proof (cases "filter (\<lambda>category. length (category_commits category) > 0)
                (groupByCategory opts (commits rel)) = []")
  case True
  with assms show ?thesis by (simp add: renderRelease_def Let_def)
next
  case False
  then show ?thesis
    by (simp add: renderRelease_def Let_def renderContributorList_def string_of_nat_0
        case_prod_beta)
qed

theorem empty_contributors_section_witness:
  "snd (renderRelease example_options (example_store ''Add a thing'')
          ((example_release [example_commit [''Bug''] None])\<lparr>contributors := None\<rparr>)) \<noteq> []
   \<and> snd (renderRelease example_options (example_store ''Add a thing'')
          ((example_release [example_commit [''Bug''] None])\<lparr>contributors := Some []\<rparr>)) =
       ''## Unreleased (2020-01-01)\<newline>\<newline>#### Bug\<newline>* [#7](https://example.com/pull/7) Add a thing. ([@alice](https://github.com/alice))\<newline>\<newline>#### Committers: 0\<newline>''"
proof -
  have o: "snd (renderRelease example_options (example_store ''Add a thing'')
          ((example_release [example_commit [''Bug''] None])\<lparr>contributors := None\<rparr>)) =
       ''## Unreleased (2020-01-01)\<newline>\<newline>#### Bug\<newline>* [#7](https://example.com/pull/7) Add a thing. ([@alice](https://github.com/alice))''"
    by code_simp
  then have n: "snd (renderRelease example_options (example_store ''Add a thing'')
          ((example_release [example_commit [''Bug''] None])\<lparr>contributors := None\<rparr>)) \<noteq> []"
    by simp
  from empty_contributors_section[OF n, of "[]"] o n show ?thesis by simp
qed

end
